theory Spec2Isabelle
  imports Main "HOL-Library.Word"
begin

unbundle bit_operations_syntax

section \<open>Character classes (Abnf/src/abnf.cpp)\<close>

text \<open>
  An \<open>ABNF\<close> object holds a \<open>std::bitset<256>\<close> and a description string. The bitset is
  a 256-bit word; bit \<open>n\<close> is set when byte \<open>n\<close> belongs to the class. A \<open>char\<close> or
  \<open>uint8_t\<close> argument is a byte; \<open>static_cast<uint8_t>\<close> reads it as \<open>unat\<close>.
\<close>

type_synonym byte = "8 word"

record ABNF =
  char_set :: "256 word"
  description :: string

definition hex_digit :: "nat \<Rightarrow> char" where
  "hex_digit n = ''0123456789ABCDEF'' ! (n mod 16)"

definition hex2 :: "byte \<Rightarrow> string" where
  "hex2 v = [hex_digit (unat v div 16), hex_digit (unat v mod 16)]"

text \<open>\<open>ABNF::ABNF()\<close>: the empty class.\<close>

definition ABNF_empty :: ABNF where
  "ABNF_empty = \<lparr>char_set = 0, description = ''EMPTY''\<rparr>"

text \<open>\<open>setBit\<close> is \<open>char_set_.set(value)\<close>.\<close>

definition setBit :: "ABNF \<Rightarrow> byte \<Rightarrow> ABNF" where
  "setBit a v = a\<lparr>char_set := set_bit (unat v) (char_set a)\<rparr>"

text \<open>\<open>ABNF::ABNF(uint8_t value)\<close>: the class of one byte, described as \<open>%xHH\<close>.\<close>

definition ABNF_value :: "byte \<Rightarrow> ABNF" where
  "ABNF_value v = (setBit \<lparr>char_set = 0, description = []\<rparr> v)\<lparr>description := ''%x'' @ hex2 v\<rparr>"

definition matches :: "ABNF \<Rightarrow> byte \<Rightarrow> bool" where
  "matches a ch = bit (char_set a) (unat ch)"

definition unionWith :: "ABNF \<Rightarrow> ABNF \<Rightarrow> ABNF" where
  "unionWith a other =
     ABNF_empty\<lparr>char_set := char_set a OR char_set other,
                description := ''('' @ description a @ '' / '' @ description other @ '')''\<rparr>"

definition intersectWith :: "ABNF \<Rightarrow> ABNF \<Rightarrow> ABNF" where
  "intersectWith a other =
     ABNF_empty\<lparr>char_set := char_set a AND char_set other,
                description := ''('' @ description a @ '' & '' @ description other @ '')''\<rparr>"

definition complement :: "ABNF \<Rightarrow> ABNF" where
  "complement a =
     ABNF_empty\<lparr>char_set := NOT (char_set a),
                description := ''~('' @ description a @ '')''\<rparr>"

section \<open>The library's \<open>std::sort\<close>\<close>

text \<open>
  \<open>rebuildTransitionMap\<close> sorts with \<open>std::sort\<close>, which the C++ standard does not
  require to keep the order of equivalent elements. The functions of this section follow
  the GNU implementation (libstdc++, \<open>bits/stl_algo.h\<close> and \<open>bits/stl_heap.h\<close>):
  introsort down to ranges of at most 16 elements, heap sort of a range when the depth
  limit \<open>2 * lg n\<close> is used up, and a final insertion sort. A range is a list and an
  iterator an index into it; \<open>lt\<close> is the comparison \<open>comp\<close>. An index outside the range
  does not occur in a run of the library code: \<open>iter_swap\<close> with such an index changes
  nothing, and the loops that the library leaves unguarded carry the bound that their
  sentinel gives them.
\<close>

text \<open>
  \<open>std::iter_swap\<close> on two positions of the range.
\<close>

definition iter_swap :: "'a list \<Rightarrow> nat \<Rightarrow> nat \<Rightarrow> 'a list" where
  "iter_swap xs i j = (if i < length xs \<and> j < length xs then xs[i := xs ! j, j := xs ! i] else xs)"

text \<open>
  \<open>__move_median_to_first(result, a, b, c, comp)\<close>: the median of the elements at
  \<open>a\<close>, \<open>b\<close>, \<open>c\<close> is swapped to \<open>result\<close>.
\<close>

definition move_median_to_first ::
    "('a \<Rightarrow> 'a \<Rightarrow> bool) \<Rightarrow> 'a list \<Rightarrow> nat \<Rightarrow> nat \<Rightarrow> nat \<Rightarrow> nat \<Rightarrow> 'a list" where
  "move_median_to_first lt xs result a b c =
     (if lt (xs ! a) (xs ! b)
      then (if lt (xs ! b) (xs ! c) then iter_swap xs result b
            else if lt (xs ! a) (xs ! c) then iter_swap xs result c
            else iter_swap xs result a)
      else if lt (xs ! a) (xs ! c) then iter_swap xs result a
      else if lt (xs ! b) (xs ! c) then iter_swap xs result c
      else iter_swap xs result b)"

text \<open>
  The two inner loops of \<open>__unguarded_partition\<close>:
  \<open>while (comp(first, pivot)) ++first\<close> and \<open>while (comp(pivot, last)) --last\<close>.
\<close>

function scan_up :: "('a \<Rightarrow> 'a \<Rightarrow> bool) \<Rightarrow> 'a list \<Rightarrow> nat \<Rightarrow> nat \<Rightarrow> nat" where
  "scan_up lt xs pivot i =
     (if i < length xs \<and> lt (xs ! i) (xs ! pivot) then scan_up lt xs pivot (Suc i) else i)"
  by pat_completeness auto
termination
  by (relation "measure (\<lambda>(lt, xs, pivot, i). length xs - i)") auto

function scan_down :: "('a \<Rightarrow> 'a \<Rightarrow> bool) \<Rightarrow> 'a list \<Rightarrow> nat \<Rightarrow> nat \<Rightarrow> nat" where
  "scan_down lt xs pivot j =
     (if 0 < j \<and> lt (xs ! pivot) (xs ! j) then scan_down lt xs pivot (j - 1) else j)"
  by pat_completeness auto
termination
  by (relation "measure (\<lambda>(lt, xs, pivot, j). j)") auto

declare scan_down.simps [simp del]

declare scan_up.simps [simp del]

lemma scan_up_ge: "i \<le> scan_up lt xs pivot i"
proof (induction lt xs pivot i rule: scan_up.induct)
  case (1 lt xs pivot i)
  show ?case
  proof (cases "i < length xs \<and> lt (xs ! i) (xs ! pivot)")
    case True
    with 1 have "Suc i \<le> scan_up lt xs pivot (Suc i)" by simp
    with True show ?thesis by (subst scan_up.simps) simp
  next
    case False
    then show ?thesis by (subst scan_up.simps) auto
  qed
qed

lemma scan_down_le: "scan_down lt xs pivot j \<le> j"
proof (induction lt xs pivot j rule: scan_down.induct)
  case (1 lt xs pivot j)
  show ?case
  proof (cases "0 < j \<and> lt (xs ! pivot) (xs ! j)")
    case True
    with 1 have "scan_down lt xs pivot (j - 1) \<le> j - 1" by simp
    with True show ?thesis by (subst scan_down.simps) simp
  next
    case False
    then show ?thesis by (subst scan_down.simps) auto
  qed
qed

text \<open>
  \<open>__unguarded_partition(first, last, pivot, comp)\<close>; the result is the cut and the
  range. \<open>__unguarded_partition_pivot\<close> moves the median of the second, the middle and
  the last element to the front and partitions the rest around it.
\<close>

function unguarded_partition ::
    "('a \<Rightarrow> 'a \<Rightarrow> bool) \<Rightarrow> 'a list \<Rightarrow> nat \<Rightarrow> nat \<Rightarrow> nat \<Rightarrow> nat \<times> 'a list" where
  "unguarded_partition lt xs i j pivot =
     (let i' = scan_up lt xs pivot i;
          j' = scan_down lt xs pivot (j - 1)
      in if \<not> i' < j' then (i', xs)
         else unguarded_partition lt (iter_swap xs i' j') (Suc i') j' pivot)"
  by pat_completeness auto
termination
proof (relation "measure (\<lambda>(lt, xs, i, j, pivot). j - i)", goal_cases)
  case 1
  show ?case by simp
next
  case (2 lt xs i j pivot i' j')
  have "i \<le> i'" using 2(1) by (simp add: scan_up_ge)
  moreover have "j' \<le> j - 1" using 2(2) by (simp add: scan_down_le)
  ultimately show ?case using 2(3) by auto
qed

declare unguarded_partition.simps [simp del]

definition unguarded_partition_pivot :: "('a \<Rightarrow> 'a \<Rightarrow> bool) \<Rightarrow> 'a list \<Rightarrow> nat \<times> 'a list" where
  "unguarded_partition_pivot lt xs =
     (let mid = length xs div 2;
          ys = move_median_to_first lt xs 0 1 mid (length xs - 1)
      in unguarded_partition lt ys 1 (length ys) 0)"

text \<open>
  \<open>__adjust_heap(first, holeIndex, len, value, comp)\<close> and \<open>__push_heap\<close>. The library
  keeps \<open>value\<close> aside and moves elements into the hole; here \<open>value\<close> is at the hole
  and is swapped along, which compares and places the same elements. \<open>adjust_heap_loop\<close>
  is the \<open>while\<close> loop that takes the hole down to a leaf.
\<close>

function adjust_heap_loop :: "('a \<Rightarrow> 'a \<Rightarrow> bool) \<Rightarrow> 'a list \<Rightarrow> nat \<Rightarrow> nat \<Rightarrow> nat \<times> 'a list" where
  "adjust_heap_loop lt xs len hole =
     (if hole < (len - 1) div 2
      then (let c = 2 * (hole + 1);
                c' = (if lt (xs ! c) (xs ! (c - 1)) then c - 1 else c)
            in adjust_heap_loop lt (iter_swap xs hole c') len c')
      else (hole, xs))"
  by pat_completeness auto
termination
  by (relation "measure (\<lambda>(lt, xs, len, hole). len - hole)") auto

declare adjust_heap_loop.simps [simp del]

function push_heap :: "('a \<Rightarrow> 'a \<Rightarrow> bool) \<Rightarrow> 'a list \<Rightarrow> nat \<Rightarrow> nat \<Rightarrow> 'a list" where
  "push_heap lt xs hole topIndex =
     (if topIndex < hole \<and> lt (xs ! ((hole - 1) div 2)) (xs ! hole)
      then push_heap lt (iter_swap xs hole ((hole - 1) div 2)) ((hole - 1) div 2) topIndex
      else xs)"
  by pat_completeness auto
termination
  by (relation "measure (\<lambda>(lt, xs, hole, topIndex). hole)") auto

declare push_heap.simps [simp del]

definition adjust_heap :: "('a \<Rightarrow> 'a \<Rightarrow> bool) \<Rightarrow> 'a list \<Rightarrow> nat \<Rightarrow> nat \<Rightarrow> 'a list" where
  "adjust_heap lt xs hole len =
     (case adjust_heap_loop lt xs len hole of
        (h, ys) \<Rightarrow>
          if even len \<and> h = (len - 2) div 2
          then push_heap lt (iter_swap ys h (2 * (h + 1) - 1)) (2 * (h + 1) - 1) hole
          else push_heap lt ys h hole)"

text \<open>
  \<open>__make_heap\<close>, \<open>__sort_heap\<close> (whose \<open>__pop_heap\<close> puts the first element at the
  end of the shrinking heap) and \<open>__partial_sort(first, last, last, comp)\<close>, the heap
  sort of a whole range.
\<close>

definition make_heap :: "('a \<Rightarrow> 'a \<Rightarrow> bool) \<Rightarrow> 'a list \<Rightarrow> 'a list" where
  "make_heap lt xs =
     (if length xs < 2 then xs
      else fold (\<lambda>parent ys. adjust_heap lt ys parent (length xs))
             (rev [0 ..< Suc ((length xs - 2) div 2)]) xs)"

definition sort_heap :: "('a \<Rightarrow> 'a \<Rightarrow> bool) \<Rightarrow> 'a list \<Rightarrow> 'a list" where
  "sort_heap lt xs = fold (\<lambda>l ys. adjust_heap lt (iter_swap ys 0 l) 0 l) (rev [1 ..< length xs]) xs"

definition partial_sort :: "('a \<Rightarrow> 'a \<Rightarrow> bool) \<Rightarrow> 'a list \<Rightarrow> 'a list" where
  "partial_sort lt xs = sort_heap lt (make_heap lt xs)"

text \<open>
  \<open>__introsort_loop(first, last, depth_limit, comp)\<close>: the recursive call sorts the part
  from the cut on, the loop goes on with the part before it.
\<close>

fun introsort_loop :: "('a \<Rightarrow> 'a \<Rightarrow> bool) \<Rightarrow> nat \<Rightarrow> 'a list \<Rightarrow> 'a list" where
  "introsort_loop lt 0 xs = (if 16 < length xs then partial_sort lt xs else xs)"
| "introsort_loop lt (Suc depth) xs =
     (if 16 < length xs
      then (case unguarded_partition_pivot lt xs of
              (cutIndex, ys) \<Rightarrow>
                introsort_loop lt depth (take cutIndex ys) @ introsort_loop lt depth (drop cutIndex ys))
      else xs)"

text \<open>
  \<open>__unguarded_linear_insert\<close> puts the element \<open>v\<close> that follows the sorted range
  \<open>xs\<close> in its place; \<open>insertion_step\<close> is the body of the loop of
  \<open>__insertion_sort\<close>, where the range before the element is never empty;
  \<open>__final_insertion_sort\<close> runs it on the first 16 elements and the unguarded
  insertion on the rest.
\<close>

function unguarded_linear_insert :: "('a \<Rightarrow> 'a \<Rightarrow> bool) \<Rightarrow> 'a \<Rightarrow> 'a list \<Rightarrow> 'a list" where
  "unguarded_linear_insert lt v xs =
     (if xs \<noteq> [] \<and> lt v (last xs) then unguarded_linear_insert lt v (butlast xs) @ [last xs]
      else xs @ [v])"
  by pat_completeness auto
termination
  by (relation "measure (\<lambda>(lt, v, xs). length xs)") auto

declare unguarded_linear_insert.simps [simp del]

definition insertion_step :: "('a \<Rightarrow> 'a \<Rightarrow> bool) \<Rightarrow> 'a \<Rightarrow> 'a list \<Rightarrow> 'a list" where
  "insertion_step lt v xs =
     (if xs \<noteq> [] \<and> lt v (hd xs) then v # xs else unguarded_linear_insert lt v xs)"

definition insertion_sort :: "('a \<Rightarrow> 'a \<Rightarrow> bool) \<Rightarrow> 'a list \<Rightarrow> 'a list" where
  "insertion_sort lt xs = (case xs of [] \<Rightarrow> [] | x # rest \<Rightarrow> fold (insertion_step lt) rest [x])"

definition final_insertion_sort :: "('a \<Rightarrow> 'a \<Rightarrow> bool) \<Rightarrow> 'a list \<Rightarrow> 'a list" where
  "final_insertion_sort lt xs =
     (if 16 < length xs
      then fold (unguarded_linear_insert lt) (drop 16 xs) (insertion_sort lt (take 16 xs))
      else insertion_sort lt xs)"

text \<open>\<open>std::__lg\<close>, the binary logarithm rounded down, and \<open>std::sort\<close>.\<close>

function std_lg :: "nat \<Rightarrow> nat" where
  "std_lg n = (if n < 2 then 0 else Suc (std_lg (n div 2)))"
  by pat_completeness auto
termination
  by (relation "measure id") auto

declare std_lg.simps [simp del]

definition std_sort :: "('a \<Rightarrow> 'a \<Rightarrow> bool) \<Rightarrow> 'a list \<Rightarrow> 'a list" where
  "std_sort lt xs =
     (if xs = [] then []
      else final_insertion_sort lt (introsort_loop lt (2 * std_lg (length xs)) xs))"

section \<open>The state machine (Fsm/include/fsm/fsm.hpp, Fsm/src/fsm.cpp)\<close>

subsection \<open>Data\<close>

text \<open>
  \<open>StateID\<close> compares and hashes by its numeric \<open>id\<close> only (the name is advisory), so a
  state identifier is its \<open>uint32_t\<close>. \<open>isValid\<close> is \<open>id != 0\<close>. Positions and counters
  are \<open>size_t\<close>; an input never reaches \<open>2^64\<close> bytes, so they are natural numbers.
\<close>

type_synonym StateID = "32 word"
type_synonym TransitionID = "32 word"

definition isValid :: "StateID \<Rightarrow> bool" where
  "isValid sid = (sid \<noteq> 0)"

datatype StateType = NORMAL | START | ACCEPT | ERROR_STATE

datatype TransitionType = ABNF_RULE | FSM_INSTANCE | EPSILON

datatype StreamState = READY | PROCESSING | WAITING_FOR_INPUT | COMPLETE | ERROR

datatype ErrorType =
    NO_MATCHING_TRANSITION | UNEXPECTED_END_OF_INPUT | NOT_IN_ACCEPT_STATE
  | EMBEDDED_FSM_FAILED | INVALID_STATE | INVALID_TRANSITION | AMBIGUOUS_TRANSITION
  | NO_START_STATE | UNREACHABLE_STATES

text \<open>
  Callbacks are \<open>std::function\<close> objects supplied by the user. What they can do to the
  machine that the executors observe is to call its capture interface, so a callback is
  the list of capture calls it makes, as a function of the context it receives:
  \<open>beginCapture(name)\<close>, \<open>endCapture(name)\<close>, and \<open>endCapture(name)\<close> inside
  \<open>try { ... } catch (...) { }\<close> (as the backtracking tests write it). An empty
  \<open>std::function\<close> is \<open>None\<close>. \<open>std::logic_error\<close>, thrown by the capture interface,
  leaves the executor through every caller: the executors return \<open>Inl LogicError\<close>.
\<close>

datatype CaptureOp = BeginCapture string | EndCapture string | TryEndCapture string

datatype exn = LogicError

record StateContext =
  ctx_state :: StateID
  ctx_position :: nat
  ctx_current_char :: byte

record TransitionContext =
  ctx_from_state :: StateID
  ctx_to_state :: StateID
  ctx_input_char :: byte
  ctx_trans_position :: nat
  ctx_transition :: TransitionID

type_synonym StateCallback = "StateContext \<Rightarrow> CaptureOp list"
type_synonym TransitionCallback = "TransitionContext \<Rightarrow> CaptureOp list"

record CaptureGroup =
  cg_name :: string
  cg_start_position :: nat
  cg_end_position :: nat
  cg_value :: "byte list"

record ActiveCapture =
  ac_name :: string
  ac_start_position :: nat
  buffer :: "byte list"

record State =
  s_id :: StateID
  s_type :: StateType
  is_choice_point :: bool
  on_entry :: "StateCallback option"
  on_exit :: "StateCallback option"

text \<open>
  A transition's \<open>embedded_fsm\<close> pointer is read only by graph composition and by the
  debug printers; the executors never follow it, so it is left out.
\<close>

record Transition =
  t_id :: TransitionID
  t_from :: StateID
  t_to :: StateID
  t_type :: TransitionType
  on_transition :: "TransitionCallback option"
  t_rule :: "ABNF option"
  t_priority :: int
  t_description :: string

text \<open>
  A choice point's \<open>remaining\<close> holds pointers into the transition vector, which no
  executor modifies: the transitions themselves stand for them.
\<close>

record ChoicePoint =
  cp_state :: StateID
  cp_position :: nat
  remaining :: "Transition list"
  captures_snapshot :: "CaptureGroup list"
  active_captures_snapshot :: "ActiveCapture list"
  input_position_snapshot :: nat

record BacktrackingStats =
  choice_points_created :: nat
  backtracks_performed :: nat
  max_stack_depth :: nat
  paths_explored :: nat

text \<open>
  Of \<open>ValidationError\<close> the kind, position, character and state are kept; the message
  is a rendering of them, and \<open>attempted_states\<close> and \<open>input_context\<close> are always
  empty.
\<close>

record ValidationError =
  err_type :: ErrorType
  err_position :: nat
  err_character :: byte
  err_current_state :: StateID

record TraceEntry =
  step :: nat
  tr_from_state :: StateID
  tr_to_state :: StateID
  tr_input_char :: byte
  tr_transition_id :: TransitionID
  tr_description :: string

text \<open>
  The four counters of \<open>Metrics\<close>. The two durations are wall-clock measurements and
  are not modelled.
\<close>

record Metrics =
  transitions_taken :: nat
  states_visited :: nat
  characters_processed :: nat
  epsilon_transitions :: nat

text \<open>
  The \<open>FSM\<close> object: the graph and the executor's mutable members together, as in the
  class. The choice stack is a list with its top at the head. \<open>debug_flags\<close> is
  \<open>debug_config_.flags\<close>; the log stream is output only. \<open>transition_map_\<close> is a cache of
  \<open>transitions_\<close> (see \<open>getTransitionsFrom\<close>) and is not a member of the record.
\<close>

record FSM =
  states :: "StateID \<rightharpoonup> State"
  transitions :: "Transition list"
  start_state :: StateID
  accept_states :: "StateID set"
  current_state :: StateID
  debug_flags :: "8 word"
  trace :: "TraceEntry list"
  last_error :: "ValidationError option"
  metrics :: Metrics
  captures :: "CaptureGroup list"
  active_captures :: "ActiveCapture list"
  current_input_position :: nat
  current_input :: "byte list"
  stream_state :: StreamState
  streaming_mode :: bool
  choice_stack :: "ChoicePoint list"
  backtracking_stats :: BacktrackingStats
  max_backtrack_depth :: nat

subsection \<open>Debug flags\<close>

definition TRACE_TRANSITIONS :: "8 word" where "TRACE_TRANSITIONS = 1"
definition TRACE_STATE_CHANGES :: "8 word" where "TRACE_STATE_CHANGES = 2"
definition VERBOSE_ERRORS :: "8 word" where "VERBOSE_ERRORS = 4"
definition COLLECT_METRICS :: "8 word" where "COLLECT_METRICS = 8"

definition hasFlag :: "8 word \<Rightarrow> 8 word \<Rightarrow> bool" where
  "hasFlag flags flag = ((flags AND flag) = flag)"

definition hasTraceTransitions :: "FSM \<Rightarrow> bool" where
  "hasTraceTransitions F = hasFlag (debug_flags F) TRACE_TRANSITIONS"

definition hasTraceStateChanges :: "FSM \<Rightarrow> bool" where
  "hasTraceStateChanges F = hasFlag (debug_flags F) TRACE_STATE_CHANGES"

definition hasCollectMetrics :: "FSM \<Rightarrow> bool" where
  "hasCollectMetrics F = hasFlag (debug_flags F) COLLECT_METRICS"

subsection \<open>Accept states, transitions of a state\<close>

definition isAcceptState :: "FSM \<Rightarrow> StateID \<Rightarrow> bool" where
  "isAcceptState F s = (s \<in> accept_states F)"

definition isInAcceptState :: "FSM \<Rightarrow> bool" where
  "isInAcceptState F = isAcceptState F (current_state F)"

definition removeAcceptState :: "FSM \<Rightarrow> StateID \<Rightarrow> FSM" where
  "removeAcceptState F s = F\<lparr>accept_states := accept_states F - {s}\<rparr>"

definition isChoicePoint :: "FSM \<Rightarrow> StateID \<Rightarrow> bool" where
  "isChoicePoint F s = (case states F s of None \<Rightarrow> False | Some st \<Rightarrow> is_choice_point st)"

text \<open>\<open>Transition::matches\<close>: only an \<open>ABNF_RULE\<close> transition with a rule can match.\<close>

definition t_matches :: "Transition \<Rightarrow> byte \<Rightarrow> bool" where
  "t_matches t ch =
     (case t_rule t of
        Some r \<Rightarrow> (if t_type t = ABNF_RULE then matches r ch else False)
      | None \<Rightarrow> False)"

text \<open>
  \<open>rebuildTransitionMap\<close> groups the transition vector by source state, keeping the
  vector's order, and sorts each group with \<open>std::sort\<close> and the comparison
  \<open>a->priority > b->priority\<close>. \<open>getTransitionsFrom\<close> rebuilds the map when it is dirty
  and returns the group of the state (empty when there is none); every mutation of the
  vector sets the dirty flag, so the result is always the sorted group of the current
  vector.
\<close>

definition sort_by_priority :: "Transition list \<Rightarrow> Transition list" where
  "sort_by_priority ts = std_sort (\<lambda>a b. t_priority b < t_priority a) ts"

definition getTransitionsFrom :: "FSM \<Rightarrow> StateID \<Rightarrow> Transition list" where
  "getTransitionsFrom F s = sort_by_priority (filter (\<lambda>t. t_from t = s) (transitions F))"

subsection \<open>Capture groups\<close>

definition beginCapture :: "FSM \<Rightarrow> string \<Rightarrow> exn + FSM" where
  "beginCapture F nm =
     (if nm \<in> set (map ac_name (active_captures F)) then Inl LogicError
      else Inr (F\<lparr>active_captures := active_captures F @
                  [\<lparr>ac_name = nm, ac_start_position = current_input_position F, buffer = []\<rparr>]\<rparr>))"

text \<open>\<open>active_captures_.erase(it)\<close> for the first capture of the name.\<close>

fun erase_first :: "string \<Rightarrow> ActiveCapture list \<Rightarrow> ActiveCapture list" where
  "erase_first nm [] = []"
| "erase_first nm (a # as) = (if ac_name a = nm then as else a # erase_first nm as)"

definition endCapture :: "FSM \<Rightarrow> string \<Rightarrow> exn + CaptureGroup \<times> FSM" where
  "endCapture F nm =
     (case find (\<lambda>a. ac_name a = nm) (active_captures F) of
        None \<Rightarrow> Inl LogicError
      | Some a \<Rightarrow>
          (let capture = \<lparr>cg_name = ac_name a, cg_start_position = ac_start_position a,
                          cg_end_position = current_input_position F, cg_value = buffer a\<rparr>
           in Inr (capture, F\<lparr>captures := captures F @ [capture],
                               active_captures := erase_first nm (active_captures F)\<rparr>)))"

definition recordCharInCaptures :: "FSM \<Rightarrow> byte \<Rightarrow> FSM" where
  "recordCharInCaptures F ch =
     F\<lparr>active_captures := map (\<lambda>a. a\<lparr>buffer := buffer a @ [ch]\<rparr>) (active_captures F)\<rparr>"

definition clearCaptures :: "FSM \<Rightarrow> FSM" where
  "clearCaptures F = F\<lparr>captures := [], active_captures := []\<rparr>"

definition updateCapturePosition :: "FSM \<Rightarrow> nat \<Rightarrow> FSM" where
  "updateCapturePosition F pos = F\<lparr>current_input_position := pos\<rparr>"

subsection \<open>Running a callback\<close>

definition run_op :: "FSM \<Rightarrow> CaptureOp \<Rightarrow> exn + FSM" where
  "run_op F op =
     (case op of
        BeginCapture nm \<Rightarrow> beginCapture F nm
      | EndCapture nm \<Rightarrow> (case endCapture F nm of Inl e \<Rightarrow> Inl e | Inr (c, F') \<Rightarrow> Inr F')
      | TryEndCapture nm \<Rightarrow> (case endCapture F nm of Inl e \<Rightarrow> Inr F | Inr (c, F') \<Rightarrow> Inr F'))"

fun run_ops :: "FSM \<Rightarrow> CaptureOp list \<Rightarrow> exn + FSM" where
  "run_ops F [] = Inr F"
| "run_ops F (op # ops) = (case run_op F op of Inl e \<Rightarrow> Inl e | Inr F' \<Rightarrow> run_ops F' ops)"

text \<open>
  \<open>it != states_.end() && it->second.on_entry\<close>: the callback of a state runs when the
  state exists and the callback is set.
\<close>

definition call_on_exit :: "FSM \<Rightarrow> StateID \<Rightarrow> nat \<Rightarrow> byte \<Rightarrow> exn + FSM" where
  "call_on_exit F s pos ch =
     (case states F s of
        None \<Rightarrow> Inr F
      | Some st \<Rightarrow>
          (case on_exit st of
             None \<Rightarrow> Inr F
           | Some cb \<Rightarrow> run_ops F (cb \<lparr>ctx_state = s, ctx_position = pos, ctx_current_char = ch\<rparr>)))"

definition call_on_entry :: "FSM \<Rightarrow> StateID \<Rightarrow> nat \<Rightarrow> byte \<Rightarrow> exn + FSM" where
  "call_on_entry F s pos ch =
     (case states F s of
        None \<Rightarrow> Inr F
      | Some st \<Rightarrow>
          (case on_entry st of
             None \<Rightarrow> Inr F
           | Some cb \<Rightarrow> run_ops F (cb \<lparr>ctx_state = s, ctx_position = pos, ctx_current_char = ch\<rparr>)))"

definition call_on_transition ::
    "FSM \<Rightarrow> Transition \<Rightarrow> StateID \<Rightarrow> StateID \<Rightarrow> byte \<Rightarrow> nat \<Rightarrow> exn + FSM" where
  "call_on_transition F t old new ch pos =
     (case on_transition t of
        None \<Rightarrow> Inr F
      | Some cb \<Rightarrow>
          run_ops F (cb \<lparr>ctx_from_state = old, ctx_to_state = new, ctx_input_char = ch,
                          ctx_trans_position = pos, ctx_transition = t_id t\<rparr>))"

subsection \<open>Taking a transition\<close>

text \<open>
  The block that \<open>processCharImpl\<close> and \<open>validateWithBacktracking\<close> both run once the
  transition is chosen (fsm.cpp lines 1164-1216 and 1000-1052, the same text): exit
  callback, transition callback, the move, entry callback, metrics, trace.
  \<open>logStateChange\<close> and \<open>logTransition\<close> only write to the log stream.
\<close>

definition count_transition :: "FSM \<Rightarrow> bool \<Rightarrow> FSM" where
  "count_transition F state_changed =
     (if hasCollectMetrics F
      then F\<lparr>metrics := (metrics F)\<lparr>
               transitions_taken := transitions_taken (metrics F) + 1,
               states_visited := (if state_changed then states_visited (metrics F) + 1
                                  else states_visited (metrics F))\<rparr>\<rparr>
      else F)"

definition trace_transition :: "FSM \<Rightarrow> StateID \<Rightarrow> byte \<Rightarrow> TransitionID \<Rightarrow> string \<Rightarrow> FSM" where
  "trace_transition F old ch tid descr =
     (if hasTraceTransitions F
      then F\<lparr>trace := trace F @
              [\<lparr>step = length (trace F), tr_from_state = old, tr_to_state = current_state F,
                tr_input_char = ch, tr_transition_id = tid, tr_description = descr\<rparr>]\<rparr>
      else F)"

definition take_transition :: "FSM \<Rightarrow> Transition \<Rightarrow> byte \<Rightarrow> nat \<Rightarrow> exn + FSM" where
  "take_transition F t ch pos =
     (let old_state = current_state F;
          new_state = t_to t;
          state_changed = (old_state \<noteq> new_state)
      in case (if state_changed then call_on_exit F old_state pos ch else Inr F) of
           Inl e \<Rightarrow> Inl e
         | Inr F1 \<Rightarrow>
        (case call_on_transition F1 t old_state new_state ch pos of
           Inl e \<Rightarrow> Inl e
         | Inr F2 \<Rightarrow>
        (case (if state_changed
               then call_on_entry (F2\<lparr>current_state := new_state\<rparr>) new_state pos ch
               else Inr (F2\<lparr>current_state := new_state\<rparr>)) of
           Inl e \<Rightarrow> Inl e
         | Inr F3 \<Rightarrow>
             Inr (trace_transition (count_transition F3 state_changed)
                    old_state ch (t_id t) (t_description t)))))"

definition admits :: "byte \<Rightarrow> Transition \<Rightarrow> bool" where
  "admits ch t = (t_type t = ABNF_RULE \<and> t_matches t ch)"

text \<open>\<open>last_error_ = ValidationError{type, position, character, current_state_, ...}\<close>.\<close>

definition set_error :: "FSM \<Rightarrow> ErrorType \<Rightarrow> nat \<Rightarrow> byte \<Rightarrow> FSM" where
  "set_error F ty pos ch =
     F\<lparr>last_error := Some \<lparr>err_type = ty, err_position = pos, err_character = ch,
                            err_current_state = current_state F\<rparr>\<rparr>"

text \<open>
  \<open>processCharImpl\<close>: the loop over \<open>getTransitionsFrom(current_state_)\<close> stops at the
  first transition with \<open>type == ABNF_RULE && matches(ch)\<close>. The result is the \<open>bool\<close>
  returned and the machine.
\<close>

definition processCharImpl :: "FSM \<Rightarrow> byte \<Rightarrow> nat \<Rightarrow> exn + bool \<times> FSM" where
  "processCharImpl F ch pos =
     (case find (admits ch) (getTransitionsFrom F (current_state F)) of
        None \<Rightarrow> Inr (False, set_error F NO_MATCHING_TRANSITION pos ch)
      | Some best_match \<Rightarrow>
          (case take_transition F best_match ch pos of
             Inl e \<Rightarrow> Inl e
           | Inr F' \<Rightarrow> Inr (True, F')))"

subsection \<open>Epsilon closure\<close>

text \<open>
  One traversal of an epsilon edge inside \<open>processEpsilonTransitions\<close>: the callbacks
  run without a \<open>state_changed\<close> test and receive the character \<open>'\0'\<close>.
\<close>

definition take_epsilon :: "FSM \<Rightarrow> Transition \<Rightarrow> nat \<Rightarrow> exn + FSM" where
  "take_epsilon F t pos =
     (let old_state = current_state F;
          new_state = t_to t
      in case call_on_exit F old_state pos 0 of
           Inl e \<Rightarrow> Inl e
         | Inr F1 \<Rightarrow>
        (case call_on_transition F1 t old_state new_state 0 pos of
           Inl e \<Rightarrow> Inl e
         | Inr F2 \<Rightarrow>
        (case call_on_entry (F2\<lparr>current_state := new_state\<rparr>) new_state pos 0 of
           Inl e \<Rightarrow> Inl e
         | Inr F3 \<Rightarrow>
             Inr (trace_transition
                    (if hasCollectMetrics F3
                     then F3\<lparr>metrics := (metrics F3)\<lparr>epsilon_transitions :=
                                epsilon_transitions (metrics F3) + 1\<rparr>\<rparr>
                     else F3)
                    old_state 0 (t_id t) ''Epsilon''))))"

text \<open>
  The \<open>while (found_epsilon)\<close> loop of \<open>processEpsilonTransitions\<close>, with the set
  \<open>epsilon_visited\<close> as its argument: each round takes the first \<open>EPSILON\<close> transition
  of the current state whose target is not visited, and the loop ends when there is
  none. Every round adds a target of a transition to the visited set, which bounds the
  number of rounds.
\<close>

definition unvisited_epsilon :: "StateID set \<Rightarrow> Transition \<Rightarrow> bool" where
  "unvisited_epsilon visited t = (t_type t = EPSILON \<and> t_to t \<notin> visited)"

function epsilon_loop :: "FSM \<Rightarrow> nat \<Rightarrow> StateID set \<Rightarrow> exn + FSM" where
  "epsilon_loop F pos visited =
     (case find (unvisited_epsilon visited) (getTransitionsFrom F (current_state F)) of
        None \<Rightarrow> Inr F
      | Some t \<Rightarrow>
          (case take_epsilon F t pos of
             Inl e \<Rightarrow> Inl e
           | Inr F' \<Rightarrow> epsilon_loop F' pos (insert (t_to t) visited)))"
  by pat_completeness auto

text \<open>
  The graph members of the machine: what no callback and no executor step changes
  (\<open>start_state_\<close> apart, which \<open>validateWithBacktracking\<close> sets around its
  re-entrant call).
\<close>

definition same_graph :: "FSM \<Rightarrow> FSM \<Rightarrow> bool" where
  "same_graph F F' =
     (states F' = states F \<and> transitions F' = transitions F \<and>
      start_state F' = start_state F \<and> accept_states F' = accept_states F \<and>
      debug_flags F' = debug_flags F \<and> max_backtrack_depth F' = max_backtrack_depth F)"

lemma same_graph_refl [simp]: "same_graph F F"
  by (simp add: same_graph_def)

lemma same_graph_trans: "same_graph F G \<Longrightarrow> same_graph G H \<Longrightarrow> same_graph F H"
  by (simp add: same_graph_def)

lemma run_op_graph: "run_op F op = Inr F' \<Longrightarrow> same_graph F F'"
  by (cases op)
    (auto simp: run_op_def beginCapture_def endCapture_def same_graph_def Let_def
      split: if_splits option.splits sum.splits)

lemma run_ops_graph: "run_ops F ops = Inr F' \<Longrightarrow> same_graph F F'"
proof (induction ops arbitrary: F)
  case Nil
  then show ?case by simp
next
  case (Cons op ops)
  then show ?case
    by (auto split: sum.splits dest: run_op_graph intro: same_graph_trans)
qed

lemma call_on_exit_graph: "call_on_exit F s pos ch = Inr F' \<Longrightarrow> same_graph F F'"
  by (auto simp: call_on_exit_def split: option.splits dest: run_ops_graph)

lemma call_on_entry_graph: "call_on_entry F s pos ch = Inr F' \<Longrightarrow> same_graph F F'"
  by (auto simp: call_on_entry_def split: option.splits dest: run_ops_graph)

lemma call_on_transition_graph:
  "call_on_transition F t old new ch pos = Inr F' \<Longrightarrow> same_graph F F'"
  by (auto simp: call_on_transition_def split: option.splits dest: run_ops_graph)

lemma same_graph_current_state [simp]: "same_graph (F\<lparr>current_state := s\<rparr>) F' = same_graph F F'"
  by (simp add: same_graph_def)

lemma trace_transition_graph [simp]:
  "same_graph F (trace_transition F' old ch tid d) = same_graph F F'"
  by (simp add: same_graph_def trace_transition_def)

lemma count_transition_graph [simp]:
  "same_graph F (count_transition F' b) = same_graph F F'"
  by (simp add: same_graph_def count_transition_def)

lemma same_graph_metrics [simp]: "same_graph F (F'\<lparr>metrics := m\<rparr>) = same_graph F F'"
  by (simp add: same_graph_def)

lemma same_graph_current_state' [simp]:
  "same_graph F (F'\<lparr>current_state := s\<rparr>) = same_graph F F'"
  by (simp add: same_graph_def)

lemma take_epsilon_graph:
  assumes "take_epsilon F t pos = Inr F'"
  shows "same_graph F F'"
proof -
  from assms obtain F1 F2 F3 where
    1: "call_on_exit F (current_state F) pos 0 = Inr F1" and
    2: "call_on_transition F1 t (current_state F) (t_to t) 0 pos = Inr F2" and
    3: "call_on_entry (F2\<lparr>current_state := t_to t\<rparr>) (t_to t) pos 0 = Inr F3" and
    4: "F' = trace_transition
              (if hasCollectMetrics F3
               then F3\<lparr>metrics := (metrics F3)\<lparr>epsilon_transitions :=
                          epsilon_transitions (metrics F3) + 1\<rparr>\<rparr>
               else F3)
              (current_state F) 0 (t_id t) ''Epsilon''"
    unfolding take_epsilon_def Let_def by (auto split: sum.splits)
  have "same_graph F F1" using 1 by (rule call_on_exit_graph)
  moreover have "same_graph F1 F2" using 2 by (rule call_on_transition_graph)
  moreover have "same_graph F2 F3" using call_on_entry_graph [OF 3] by simp
  ultimately have "same_graph F F3" by (blast intro: same_graph_trans)
  then show ?thesis by (simp add: 4)
qed

lemma iter_swap_set [simp]: "set (iter_swap xs i j) = set xs"
  by (simp add: iter_swap_def set_swap)

lemma iter_swap_length [simp]: "length (iter_swap xs i j) = length xs"
  by (simp add: iter_swap_def)

lemma move_median_to_first_set [simp]: "set (move_median_to_first lt xs r a b c) = set xs"
  by (simp add: move_median_to_first_def)

lemma move_median_to_first_length [simp]:
  "length (move_median_to_first lt xs r a b c) = length xs"
  by (simp add: move_median_to_first_def)

lemma unguarded_partition_set:
  "set (snd (unguarded_partition lt xs i j pivot)) = set xs \<and>
   length (snd (unguarded_partition lt xs i j pivot)) = length xs"
proof (induction lt xs i j pivot rule: unguarded_partition.induct)
  case (1 lt xs i j pivot)
  show ?case
  proof (cases "scan_up lt xs pivot i < scan_down lt xs pivot (j - 1)")
    case True
    with 1 show ?thesis by (subst (1 2) unguarded_partition.simps) (simp add: Let_def)
  next
    case False
    then show ?thesis by (subst (1 2) unguarded_partition.simps) (simp add: Let_def)
  qed
qed

lemma unguarded_partition_pivot_set:
  assumes "unguarded_partition_pivot lt xs = (c, ys)"
  shows "set ys = set xs" and "length ys = length xs"
proof -
  let ?ys = "move_median_to_first lt xs 0 1 (length xs div 2) (length xs - 1)"
  from assms have "ys = snd (unguarded_partition lt ?ys 1 (length ?ys) 0)"
    by (simp add: unguarded_partition_pivot_def Let_def)
  then show "set ys = set xs" and "length ys = length xs"
    using unguarded_partition_set [of lt ?ys 1 "length ?ys" 0] by simp_all
qed

lemma adjust_heap_loop_set:
  "set (snd (adjust_heap_loop lt xs len hole)) = set xs \<and>
   length (snd (adjust_heap_loop lt xs len hole)) = length xs"
proof (induction lt xs len hole rule: adjust_heap_loop.induct)
  case (1 lt xs len hole)
  show ?case
  proof (cases "hole < (len - 1) div 2")
    case True
    with 1 show ?thesis by (subst (1 2) adjust_heap_loop.simps) (simp add: Let_def)
  next
    case False
    then show ?thesis by (subst (1 2) adjust_heap_loop.simps) simp
  qed
qed

lemma push_heap_set:
  "set (push_heap lt xs hole t) = set xs \<and> length (push_heap lt xs hole t) = length xs"
proof (induction lt xs hole t rule: push_heap.induct)
  case (1 lt xs hole t)
  show ?case
  proof (cases "t < hole \<and> lt (xs ! ((hole - 1) div 2)) (xs ! hole)")
    case True
    with 1 show ?thesis by (subst (1 2) push_heap.simps) simp
  next
    case False
    then show ?thesis by (subst (1 2) push_heap.simps) auto
  qed
qed

lemma push_heap_if:
  "set (if c then push_heap lt as i t else push_heap lt bs j t) = (if c then set as else set bs)"
  "length (if c then push_heap lt as i t else push_heap lt bs j t)
     = (if c then length as else length bs)"
  by (simp_all add: push_heap_set)

lemma adjust_heap_set [simp]:
  "set (adjust_heap lt xs hole len) = set xs" "length (adjust_heap lt xs hole len) = length xs"
proof -
  obtain h ys where sd: "adjust_heap_loop lt xs len hole = (h, ys)"
    by (cases "adjust_heap_loop lt xs len hole")
  with adjust_heap_loop_set [of lt xs len hole] have ys: "set ys = set xs" "length ys = length xs"
    by simp_all
  have a: "adjust_heap lt xs hole len =
      (if even len \<and> h = (len - 2) div 2
       then push_heap lt (iter_swap ys h (2 * (h + 1) - 1)) (2 * (h + 1) - 1) hole
       else push_heap lt ys h hole)"
    by (simp only: adjust_heap_def sd prod.case)
  show "set (adjust_heap lt xs hole len) = set xs"
    by (simp only: a push_heap_if iter_swap_set ys if_cancel)
  show "length (adjust_heap lt xs hole len) = length xs"
    by (simp only: a push_heap_if iter_swap_length ys if_cancel)
qed

lemma fold_keeps:
  assumes "\<And>a ys. set (g a ys) = set ys \<and> length (g a ys) = length ys"
  shows "set (fold g as xs) = set xs \<and> length (fold g as xs) = length xs"
  by (induction as arbitrary: xs) (simp_all add: assms)

lemma partial_sort_set [simp]:
  "set (partial_sort lt xs) = set xs" "length (partial_sort lt xs) = length xs"
proof -
  have m: "set (make_heap lt xs) = set xs \<and> length (make_heap lt xs) = length xs"
    unfolding make_heap_def by (simp add: fold_keeps)
  have "set (sort_heap lt ys) = set ys \<and> length (sort_heap lt ys) = length ys" for ys
    unfolding sort_heap_def by (rule fold_keeps) simp
  with m show "set (partial_sort lt xs) = set xs"
    "length (partial_sort lt xs) = length xs"
    by (simp_all add: partial_sort_def)
qed

lemma introsort_loop_set: "set (introsort_loop lt depth xs) = set xs"
proof (induction depth arbitrary: xs)
  case 0
  show ?case by simp
next
  case (Suc depth)
  show ?case
  proof (cases "16 < length xs")
    case False
    then show ?thesis by simp
  next
    case True
    obtain c ys where p: "unguarded_partition_pivot lt xs = (c, ys)"
      by (cases "unguarded_partition_pivot lt xs")
    have "set (take c ys) \<union> set (drop c ys) = set ys"
      by (metis append_take_drop_id set_append)
    with True p Suc.IH unguarded_partition_pivot_set(1) [OF p] show ?thesis by simp
  qed
qed

lemma introsort_loop_short: "length xs \<le> 16 \<Longrightarrow> introsort_loop lt depth xs = xs"
  by (cases depth) simp_all

lemma insort_key_before:
  "f y \<le> f b \<Longrightarrow> insort_key f y (as @ b # bs) = insort_key f y as @ b # bs"
  by (induction as) simp_all

lemma insort_key_after:
  "\<forall>e \<in> set as. f e < f y \<Longrightarrow> insort_key f y (as @ bs) = as @ insort_key f y bs"
  by (induction as) auto

lemma unguarded_linear_insert_sorted:
  assumes "sorted (map f zs)"
  shows "unguarded_linear_insert (\<lambda>a b. f a < f b) v zs
     = filter (\<lambda>e. f e \<le> f v) zs @ v # filter (\<lambda>e. f v < f e) zs"
  using assms
proof (induction zs rule: rev_induct)
  case Nil
  show ?case by (subst unguarded_linear_insert.simps) simp
next
  case (snoc z zs)
  from snoc.prems have sorted: "sorted (map f zs)" and le: "\<forall>e \<in> set zs. f e \<le> f z"
    by (auto simp: sorted_append)
  show ?case
  proof (cases "f v < f z")
    case True
    with snoc.IH [OF sorted] show ?thesis
      by (subst unguarded_linear_insert.simps) simp
  next
    case False
    with le have "\<forall>e \<in> set zs. f e \<le> f v" by auto
    then have "filter (\<lambda>e. f e \<le> f v) zs = zs" "filter (\<lambda>e. f v < f e) zs = []"
      by (auto simp: filter_empty_conv)
    with False show ?thesis by (subst unguarded_linear_insert.simps) simp
  qed
qed

lemma unguarded_linear_insert_insort:
  assumes "sorted (map f zs)"
  shows "insort_key f y (unguarded_linear_insert (\<lambda>a b. f a < f b) v zs)
     = unguarded_linear_insert (\<lambda>a b. f a < f b) v (insort_key f y zs)"
proof -
  have s': "sorted (map f (insort_key f y zs))" using assms by (simp add: sorted_insort_key)
  show ?thesis
  proof (cases "f y \<le> f v")
    case True
    then show ?thesis
      by (simp add: unguarded_linear_insert_sorted [OF assms] unguarded_linear_insert_sorted [OF s']
          insort_key_before filter_insort [OF assms] filter_insort_triv)
  next
    case False
    then have "\<forall>e \<in> set (filter (\<lambda>e. f e \<le> f v) zs @ [v]). f e < f y" by auto
    from insort_key_after [OF this, of "filter (\<lambda>e. f v < f e) zs"] False show ?thesis
      by (simp add: unguarded_linear_insert_sorted [OF assms] unguarded_linear_insert_sorted [OF s']
          filter_insort [OF assms] filter_insort_triv)
  qed
qed

lemma sort_key_snoc:
  "sort_key f (ys @ [v]) = unguarded_linear_insert (\<lambda>a b. f a < f b) v (sort_key f ys)"
proof (induction ys)
  case Nil
  show ?case by (subst unguarded_linear_insert.simps) simp
next
  case (Cons y ys)
  then show ?case by (simp add: unguarded_linear_insert_insort)
qed

lemma insertion_step_sorted:
  assumes "sorted (map f zs)"
  shows "insertion_step (\<lambda>a b. f a < f b) v zs = unguarded_linear_insert (\<lambda>a b. f a < f b) v zs"
proof (cases "zs \<noteq> [] \<and> f v < f (hd zs)")
  case False
  then show ?thesis by (auto simp: insertion_step_def)
next
  case True
  then obtain z zs' where zs: "zs = z # zs'" by (cases zs) auto
  with assms True have "\<forall>e \<in> set zs. f v < f e" by auto
  then have "filter (\<lambda>e. f e \<le> f v) zs = []" "filter (\<lambda>e. f v < f e) zs = zs"
    by (auto simp: filter_empty_conv)
  with True show ?thesis
    by (simp add: insertion_step_def unguarded_linear_insert_sorted [OF assms])
qed

lemma fold_unguarded_linear_insert:
  "fold (unguarded_linear_insert (\<lambda>a b. f a < f b)) rest (sort_key f pre) = sort_key f (pre @ rest)"
proof (induction rest arbitrary: pre)
  case Nil
  show ?case by simp
next
  case (Cons v rest)
  from Cons.IH [of "pre @ [v]"] show ?case by (simp add: sort_key_snoc)
qed

lemma fold_insertion_step:
  "fold (insertion_step (\<lambda>a b. f a < f b)) rest (sort_key f pre) = sort_key f (pre @ rest)"
proof (induction rest arbitrary: pre)
  case Nil
  show ?case by simp
next
  case (Cons v rest)
  have "insertion_step (\<lambda>a b. f a < f b) v (sort_key f pre) = sort_key f (pre @ [v])"
    by (simp add: insertion_step_sorted sort_key_snoc)
  with Cons.IH [of "pre @ [v]"] show ?case by simp
qed

lemma insertion_sort_sort_key: "insertion_sort (\<lambda>a b. f a < f b) xs = sort_key f xs"
proof (cases xs)
  case Nil
  then show ?thesis by (simp add: insertion_sort_def)
next
  case (Cons x rest)
  from fold_insertion_step [of f rest "[x]"] Cons show ?thesis
    by (simp add: insertion_sort_def)
qed

lemma final_insertion_sort_sort_key:
  "final_insertion_sort (\<lambda>a b. f a < f b) xs = sort_key f xs"
  using fold_unguarded_linear_insert [of f "drop 16 xs" "take 16 xs"]
  by (simp add: final_insertion_sort_def insertion_sort_sort_key)

lemma std_sort_sort_key:
  "std_sort (\<lambda>a b. f a < f b) xs
     = sort_key f (introsort_loop (\<lambda>a b. f a < f b) (2 * std_lg (length xs)) xs)"
  by (simp add: std_sort_def final_insertion_sort_sort_key introsort_loop_short)

lemma std_sort_short:
  "length xs \<le> 16 \<Longrightarrow> std_sort (\<lambda>a b. f a < f b) xs = sort_key f xs"
  by (simp add: std_sort_sort_key introsort_loop_short)

lemma std_sort_set [simp]:
  "set (std_sort (\<lambda>a b. (f a :: 'b :: linorder) < f b) xs) = set xs"
  by (simp add: std_sort_sort_key introsort_loop_set)

lemma std_sort_sorted: "sorted (map f (std_sort (\<lambda>a b. f a < f b) xs))"
  by (simp add: std_sort_sort_key)




text \<open>
  With the comparison of \<open>rebuildTransitionMap\<close>: the result has the elements of the
  group, in descending order of priority; a group of at most 16 transitions is sorted by
  insertion alone, which keeps transitions of equal priority in the order of the vector.
\<close>

lemma priority_comparison:
  "(\<lambda>a b. t_priority b < t_priority a) = (\<lambda>a b. - t_priority a < - t_priority (b :: Transition))"
  by (intro ext) simp

lemma sort_by_priority_sort_key:
  "sort_by_priority ts = sort_key (\<lambda>t. - t_priority t)
     (introsort_loop (\<lambda>a b. t_priority b < t_priority a) (2 * std_lg (length ts)) ts)"
  unfolding sort_by_priority_def
  by (subst (1 2) priority_comparison) (rule std_sort_sort_key)

lemma sort_by_priority_short:
  "length ts \<le> 16 \<Longrightarrow> sort_by_priority ts = sort_key (\<lambda>t. - t_priority t) ts"
  by (simp add: sort_by_priority_sort_key introsort_loop_short)

lemma set_sort_by_priority [simp]: "set (sort_by_priority ts) = set ts"
  by (simp add: sort_by_priority_sort_key introsort_loop_set)

lemma sorted_sort_by_priority: "sorted (map (\<lambda>t. - t_priority t) (sort_by_priority ts))"
  by (simp add: sort_by_priority_sort_key)


lemma set_getTransitionsFrom: "set (getTransitionsFrom F s) \<subseteq> set (transitions F)"
  by (auto simp: getTransitionsFrom_def)

termination epsilon_loop
proof (relation "measure (\<lambda>(F, pos, visited). card (t_to ` set (transitions F) - visited))")
  show "wf (measure (\<lambda>(F, pos, visited). card (t_to ` set (transitions F) - visited)))"
    by simp
next
  fix F :: FSM and pos :: nat and visited :: "StateID set" and t :: Transition and F' :: FSM
  assume found: "find (unvisited_epsilon visited) (getTransitionsFrom F (current_state F)) = Some t"
    and taken: "take_epsilon F t pos = Inr F'"
  from found have "t \<in> set (getTransitionsFrom F (current_state F))" and "t_to t \<notin> visited"
    by (auto simp: find_Some_iff unvisited_epsilon_def)
  then have mem: "t_to t \<in> t_to ` set (transitions F) - visited"
    using set_getTransitionsFrom by blast
  from taken have same: "transitions F' = transitions F"
    by (auto dest: take_epsilon_graph simp: same_graph_def)
  have "t_to ` set (transitions F) - insert (t_to t) visited \<subset> t_to ` set (transitions F) - visited"
    using mem by blast
  then have "card (t_to ` set (transitions F) - insert (t_to t) visited)
      < card (t_to ` set (transitions F) - visited)"
    by (intro psubset_card_mono) auto
  then show "((F', pos, insert (t_to t) visited), (F, pos, visited))
      \<in> measure (\<lambda>(F, pos, visited). card (t_to ` set (transitions F) - visited))"
    by (simp add: same)
qed

declare epsilon_loop.simps [simp del]

definition processEpsilonTransitions :: "FSM \<Rightarrow> nat \<Rightarrow> exn + FSM" where
  "processEpsilonTransitions F pos = epsilon_loop F pos {current_state F}"

subsection \<open>Reset and one-shot validation\<close>

definition zero_metrics :: Metrics where
  "zero_metrics = \<lparr>transitions_taken = 0, states_visited = 0,
                    characters_processed = 0, epsilon_transitions = 0\<rparr>"

definition zero_stats :: BacktrackingStats where
  "zero_stats = \<lparr>choice_points_created = 0, backtracks_performed = 0,
                  max_stack_depth = 0, paths_explored = 0\<rparr>"

definition resetBacktrackingStats :: "FSM \<Rightarrow> FSM" where
  "resetBacktrackingStats F = F\<lparr>backtracking_stats := zero_stats\<rparr>"

text \<open>
  \<open>FSM::reset\<close>. The trace is cleared under \<open>hasTraceTransitions() ||
  hasTraceStateChanges()\<close>, the metrics under \<open>hasCollectMetrics()\<close>; the capture
  vectors are not touched.
\<close>

definition reset :: "FSM \<Rightarrow> FSM" where
  "reset F =
     resetBacktrackingStats
       (F\<lparr>current_state := start_state F,
          last_error := None,
          trace := (if hasTraceTransitions F \<or> hasTraceStateChanges F then [] else trace F),
          metrics := (if hasCollectMetrics F then zero_metrics else metrics F),
          current_input_position := 0,
          current_input := [],
          stream_state := READY,
          streaming_mode := False,
          choice_stack := []\<rparr>)"

definition resetStream :: "FSM \<Rightarrow> FSM" where
  "resetStream F = F\<lparr>stream_state := READY, streaming_mode := False\<rparr>"

definition count_character :: "FSM \<Rightarrow> FSM" where
  "count_character F =
     (if hasCollectMetrics F
      then F\<lparr>metrics := (metrics F)\<lparr>characters_processed :=
                 characters_processed (metrics F) + 1\<rparr>\<rparr>
      else F)"

text \<open>
  The \<open>for\<close> loop of \<open>validate\<close> from index \<open>i\<close> over the bytes that are left. The
  \<open>bool\<close> is \<open>False\<close> when the loop left through \<open>return false\<close>.
\<close>

fun validate_loop :: "FSM \<Rightarrow> nat \<Rightarrow> byte list \<Rightarrow> exn + bool \<times> FSM" where
  "validate_loop F i [] = Inr (True, F)"
| "validate_loop F i (ch # rest) =
     (case processCharImpl (updateCapturePosition F i) ch i of
        Inl e \<Rightarrow> Inl e
      | Inr (ok, F1) \<Rightarrow>
          if \<not> ok then Inr (False, F1)
          else validate_loop (recordCharInCaptures (count_character F1) ch) (Suc i) rest)"

text \<open>The statements of \<open>validate\<close> before the loop.\<close>

definition validate_init :: "FSM \<Rightarrow> byte list \<Rightarrow> FSM" where
  "validate_init F input =
     (clearCaptures ((reset F)\<lparr>last_error := None, current_input := input\<rparr>))
       \<lparr>current_input_position := 0\<rparr>"

text \<open>The statements after the loop: closure at \<open>input.size()\<close>, then the accept test.\<close>

definition validate_finish :: "FSM \<Rightarrow> nat \<Rightarrow> exn + bool \<times> FSM" where
  "validate_finish F n =
     (case processEpsilonTransitions (updateCapturePosition F n) n of
        Inl e \<Rightarrow> Inl e
      | Inr F' \<Rightarrow>
          if \<not> isInAcceptState F' then Inr (False, set_error F' NOT_IN_ACCEPT_STATE n 0)
          else Inr (True, F'))"

definition validate :: "FSM \<Rightarrow> byte list \<Rightarrow> exn + bool \<times> FSM" where
  "validate F input =
     (let F0 = validate_init F input
      in if \<not> isValid (start_state F0) then Inr (False, set_error F0 NO_START_STATE 0 0)
         else case validate_loop F0 0 input of
                Inl e \<Rightarrow> Inl e
              | Inr (ok, F1) \<Rightarrow>
                  if \<not> ok then Inr (False, F1) else validate_finish F1 (length input))"

subsection \<open>Streaming\<close>

text \<open>
  \<open>feed(char)\<close>. The stream state returned is the member \<open>stream_state_\<close> of the machine
  returned.
\<close>

definition feed :: "FSM \<Rightarrow> byte \<Rightarrow> exn + FSM" where
  "feed F ch =
     (let first = \<not> streaming_mode F;
          F0 = (if first
                then F\<lparr>streaming_mode := True, stream_state := PROCESSING,
                       current_input := current_input F @ [ch]\<rparr>
                else F\<lparr>current_input := current_input F @ [ch]\<rparr>)
      in if first \<and> \<not> isValid (start_state F0)
         then Inr ((set_error F0 NO_START_STATE (current_input_position F0) ch)
                     \<lparr>stream_state := ERROR\<rparr>)
         else
           case processCharImpl (updateCapturePosition F0 (current_input_position F0)) ch
                  (current_input_position F0) of
             Inl e \<Rightarrow> Inl e
           | Inr (ok, F1) \<Rightarrow>
               if \<not> ok then Inr (F1\<lparr>stream_state := ERROR\<rparr>)
               else
                 (let F2 = recordCharInCaptures (count_character F1) ch;
                      F3 = updateCapturePosition
                             (F2\<lparr>current_input_position := current_input_position F2 + 1\<rparr>)
                             (current_input_position F2 + 1)
                  in Inr (F3\<lparr>stream_state :=
                              (if isInAcceptState F3 then COMPLETE else WAITING_FOR_INPUT)\<rparr>)))"

text \<open>\<open>feed(string_view)\<close>: byte by byte, returning at the first \<open>ERROR\<close>.\<close>

fun feed_chunk :: "FSM \<Rightarrow> byte list \<Rightarrow> exn + FSM" where
  "feed_chunk F [] = Inr F"
| "feed_chunk F (ch # rest) =
     (case feed F ch of
        Inl e \<Rightarrow> Inl e
      | Inr F' \<Rightarrow> if stream_state F' = ERROR then Inr F' else feed_chunk F' rest)"

text \<open>A caller's sequence \<open>feed(x[0]); ...; feed(x[n-1])\<close>, every call made.\<close>

fun feed_each :: "FSM \<Rightarrow> byte list \<Rightarrow> exn + FSM" where
  "feed_each F [] = Inr F"
| "feed_each F (ch # rest) =
     (case feed F ch of Inl e \<Rightarrow> Inl e | Inr F' \<Rightarrow> feed_each F' rest)"

definition endOfStream :: "FSM \<Rightarrow> exn + FSM" where
  "endOfStream F =
     (if \<not> streaming_mode F
      then Inr ((set_error F UNEXPECTED_END_OF_INPUT 0 0)\<lparr>stream_state := ERROR\<rparr>)
      else case processEpsilonTransitions F (current_input_position F) of
             Inl e \<Rightarrow> Inl e
           | Inr F' \<Rightarrow>
               if \<not> isInAcceptState F'
               then Inr ((set_error F' NOT_IN_ACCEPT_STATE (current_input_position F') 0)
                            \<lparr>stream_state := ERROR\<rparr>)
               else Inr (F'\<lparr>stream_state := COMPLETE\<rparr>))"

subsection \<open>Backtracking\<close>

definition getValidTransitions :: "FSM \<Rightarrow> byte \<Rightarrow> Transition list" where
  "getValidTransitions F ch = filter (admits ch) (getTransitionsFrom F (current_state F))"

definition shouldCreateChoicePoint :: "FSM \<Rightarrow> Transition list \<Rightarrow> bool" where
  "shouldCreateChoicePoint F valid_transitions =
     (if length valid_transitions \<le> 1 then False
      else if isChoicePoint F (current_state F) then True
      else length valid_transitions > 1)"

definition saveChoicePoint :: "FSM \<Rightarrow> Transition list \<Rightarrow> nat \<Rightarrow> FSM" where
  "saveChoicePoint F alternatives pos =
     (if max_backtrack_depth F > 0 \<and> length (choice_stack F) \<ge> max_backtrack_depth F then F
      else
        (let stack = \<lparr>cp_state = current_state F, cp_position = pos, remaining = alternatives,
                       captures_snapshot = captures F,
                       active_captures_snapshot = active_captures F,
                       input_position_snapshot = current_input_position F\<rparr> # choice_stack F;
             st = backtracking_stats F
         in F\<lparr>choice_stack := stack,
              backtracking_stats := st\<lparr>
                choice_points_created := choice_points_created st + 1,
                max_stack_depth := (if length stack > max_stack_depth st then length stack
                                    else max_stack_depth st)\<rparr>\<rparr>))"

definition restoreFromChoicePoint :: "FSM \<Rightarrow> ChoicePoint \<Rightarrow> FSM" where
  "restoreFromChoicePoint F cp =
     F\<lparr>current_state := cp_state cp,
       captures := captures_snapshot cp,
       active_captures := active_captures_snapshot cp,
       current_input_position := input_position_snapshot cp\<rparr>"

text \<open>
  \<open>backtrack\<close>: pops the choice points whose \<open>remaining\<close> is empty; at the first one
  that has an alternative left it restores the snapshot, counts the backtrack and
  returns \<open>true\<close> with that choice point still on top; on an exhausted stack it returns
  \<open>false\<close>.
\<close>

definition backtrack :: "FSM \<Rightarrow> bool \<times> FSM" where
  "backtrack F =
     (case dropWhile (\<lambda>cp. remaining cp = []) (choice_stack F) of
        [] \<Rightarrow> (False, F\<lparr>choice_stack := []\<rparr>)
      | cp # below \<Rightarrow>
          (let F1 = restoreFromChoicePoint (F\<lparr>choice_stack := cp # below\<rparr>) cp;
               st = backtracking_stats F1
           in (True, F1\<lparr>backtracking_stats :=
                          st\<lparr>backtracks_performed := backtracks_performed st + 1\<rparr>\<rparr>)))"

definition count_path :: "FSM \<Rightarrow> FSM" where
  "count_path F =
     F\<lparr>backtracking_stats :=
         (backtracking_stats F)\<lparr>paths_explored := paths_explored (backtracking_stats F) + 1\<rparr>\<rparr>"

text \<open>
  The \<open>while (position < input.size())\<close> loop of \<open>validateWithBacktracking\<close>. A
  backtrack moves \<open>position\<close> back, so the number of rounds is not bounded by the
  input's length: the first argument is fuel, and \<open>None\<close> means that it ran out. The
  \<open>bool\<close> is \<open>False\<close> when the loop left through \<open>return false\<close>.

  In the backtrack branch the byte recorded into the restored captures is \<open>ch\<close>, the
  byte at the position where no transition matched; no callback runs for the
  alternative taken.
\<close>

fun backtrack_loop :: "nat \<Rightarrow> FSM \<Rightarrow> byte list \<Rightarrow> nat \<Rightarrow> (exn + bool \<times> FSM) option" where
  "backtrack_loop 0 F input position = None"
| "backtrack_loop (Suc fuel) F input position =
     (if \<not> position < length input then Some (Inr (True, F))
      else
        (let ch = input ! position;
             F0 = updateCapturePosition F position;
             valid_transitions = getValidTransitions F0 ch
         in if valid_transitions = []
            then
              (case backtrack F0 of
                 (False, F1) \<Rightarrow>
                   Some (Inr (False, set_error F1 NO_MATCHING_TRANSITION position ch))
               | (True, F1) \<Rightarrow>
                   (case choice_stack F1 of
                      [] \<Rightarrow> Some (Inr (False, set_error F1 NO_MATCHING_TRANSITION position ch))
                    | cp # below \<Rightarrow>
                        (case remaining cp of
                           [] \<Rightarrow>
                             Some (Inr (False, set_error F1 NO_MATCHING_TRANSITION position ch))
                         | next_trans # others \<Rightarrow>
                             (let F2 = F1\<lparr>choice_stack := cp\<lparr>remaining := others\<rparr> # below,
                                          current_state := t_to next_trans\<rparr>;
                                  F3 = recordCharInCaptures (count_path F2) ch;
                                  F4 = F3\<lparr>current_input_position := cp_position cp + 1\<rparr>
                              in backtrack_loop fuel (count_character F4) input
                                   (cp_position cp + 1)))))
            else
              (let F1 = (if shouldCreateChoicePoint F0 valid_transitions
                         then saveChoicePoint F0 (tl valid_transitions) position
                         else F0)
               in case take_transition (count_path F1) (hd valid_transitions) ch position of
                    Inl e \<Rightarrow> Some (Inl e)
                  | Inr F2 \<Rightarrow>
                      (let F3 = recordCharInCaptures F2 ch;
                           F4 = F3\<lparr>current_input_position := current_input_position F3 + 1\<rparr>
                       in backtrack_loop fuel (count_character F4) input (position + 1)))))"

text \<open>The statements of \<open>validateWithBacktracking\<close> before the loop.\<close>

definition backtracking_init :: "FSM \<Rightarrow> byte list \<Rightarrow> FSM" where
  "backtracking_init F input =
     (clearCaptures
        ((resetBacktrackingStats (reset F))
           \<lparr>last_error := None, choice_stack := [], current_input := input\<rparr>))
       \<lparr>current_input_position := 0\<rparr>"

text \<open>
  \<open>validateWithBacktracking\<close>, and the \<open>while (backtrack())\<close> loop that it runs when
  the input is consumed outside the accept set. The loop re-enters
  \<open>validateWithBacktracking\<close> on the rest of the input with \<open>start_state_\<close> set to the
  alternative's target; the call resets the machine, the choice stack included, and
  \<open>start_state_\<close> is put back when the call returns (not when it throws).
\<close>

fun validateWithBacktracking :: "nat \<Rightarrow> FSM \<Rightarrow> byte list \<Rightarrow> (exn + bool \<times> FSM) option"
  and resume_loop :: "nat \<Rightarrow> FSM \<Rightarrow> byte list \<Rightarrow> (exn + bool \<times> FSM) option" where
  "validateWithBacktracking 0 F input = None"
| "validateWithBacktracking (Suc fuel) F input =
     (let F0 = backtracking_init F input
      in if \<not> isValid (start_state F0) then Some (Inr (False, set_error F0 NO_START_STATE 0 0))
         else
           case backtrack_loop (Suc fuel) F0 input 0 of
             None \<Rightarrow> None
           | Some (Inl e) \<Rightarrow> Some (Inl e)
           | Some (Inr (False, F1)) \<Rightarrow> Some (Inr (False, F1))
           | Some (Inr (True, F1)) \<Rightarrow>
               (case processEpsilonTransitions (updateCapturePosition F1 (length input))
                       (length input) of
                  Inl e \<Rightarrow> Some (Inl e)
                | Inr F2 \<Rightarrow>
                    if \<not> isInAcceptState F2 then resume_loop fuel F2 input
                    else Some (Inr (True, F2))))"
| "resume_loop 0 F input = None"
| "resume_loop (Suc fuel) F input =
     (case backtrack F of
        (False, F1) \<Rightarrow> Some (Inr (False, set_error F1 NOT_IN_ACCEPT_STATE (length input) 0))
      | (True, F1) \<Rightarrow>
          (case choice_stack F1 of
             [] \<Rightarrow> Some (Inr (False, set_error F1 NOT_IN_ACCEPT_STATE (length input) 0))
           | cp # below \<Rightarrow>
               (case remaining cp of
                  [] \<Rightarrow> resume_loop fuel (F1\<lparr>choice_stack := below\<rparr>) input
                | next_trans # others \<Rightarrow>
                    (let F2 = (count_path (F1\<lparr>choice_stack := cp\<lparr>remaining := others\<rparr> # below\<rparr>))
                                \<lparr>current_state := t_to next_trans\<rparr>;
                         resume_pos = cp_position cp + 1
                     in if resume_pos \<ge> length input
                        then
                          (case processEpsilonTransitions F2 (length input) of
                             Inl e \<Rightarrow> Some (Inl e)
                           | Inr F3 \<Rightarrow>
                               if isInAcceptState F3 then Some (Inr (True, F3))
                               else resume_loop fuel F3 input)
                        else
                          (let saved_start = start_state F2
                           in case validateWithBacktracking fuel
                                     (F2\<lparr>start_state := current_state F2\<rparr>)
                                     (drop resume_pos input) of
                                None \<Rightarrow> None
                              | Some (Inl e) \<Rightarrow> Some (Inl e)
                              | Some (Inr (success, F3)) \<Rightarrow>
                                  if success then Some (Inr (True, F3\<lparr>start_state := saved_start\<rparr>))
                                  else resume_loop fuel (F3\<lparr>start_state := saved_start\<rparr>) input)))))"

subsection \<open>Construction\<close>

text \<open>
  The three constructors of \<open>Transition\<close> that the executors meet (rule and epsilon),
  the constructor \<open>State(id, type)\<close>, and \<open>FSM(const InitialConfig&)\<close>, which copies
  the states (a later state of the same id replaces an earlier one), the transitions,
  the start state and the accept states, and starts in the start state with every other
  member at its default.
\<close>

definition Transition_rule :: "TransitionID \<Rightarrow> StateID \<Rightarrow> StateID \<Rightarrow> ABNF \<Rightarrow> int \<Rightarrow> Transition" where
  "Transition_rule tid from_state to_state abnf_rule prio =
     \<lparr>t_id = tid, t_from = from_state, t_to = to_state, t_type = ABNF_RULE,
      on_transition = None, t_rule = Some abnf_rule, t_priority = prio,
      t_description = description abnf_rule\<rparr>"

definition PRIORITY_NORMAL :: int where "PRIORITY_NORMAL = 50"

definition Transition_epsilon :: "TransitionID \<Rightarrow> StateID \<Rightarrow> StateID \<Rightarrow> Transition" where
  "Transition_epsilon tid from_state to_state =
     \<lparr>t_id = tid, t_from = from_state, t_to = to_state, t_type = EPSILON,
      on_transition = None, t_rule = None, t_priority = PRIORITY_NORMAL,
      t_description = ''Epsilon''\<rparr>"

definition State_of :: "StateID \<Rightarrow> StateType \<Rightarrow> State" where
  "State_of sid ty = \<lparr>s_id = sid, s_type = ty, is_choice_point = False,
                       on_entry = None, on_exit = None\<rparr>"

definition FSM_config :: "State list \<Rightarrow> Transition list \<Rightarrow> StateID \<Rightarrow> StateID list \<Rightarrow> FSM" where
  "FSM_config sts ts start accepts =
     \<lparr>states = map_of (rev (map (\<lambda>st. (s_id st, st)) sts)),
      transitions = ts,
      start_state = start,
      accept_states = set accepts,
      current_state = start,
      debug_flags = 0,
      trace = [],
      last_error = None,
      metrics = zero_metrics,
      captures = [],
      active_captures = [],
      current_input_position = 0,
      current_input = [],
      stream_state = READY,
      streaming_mode = False,
      choice_stack = [],
      backtracking_stats = zero_stats,
      max_backtrack_depth = 0\<rparr>"

definition setDebugConfig :: "FSM \<Rightarrow> 8 word \<Rightarrow> FSM" where
  "setDebugConfig F flags = F\<lparr>debug_flags := flags\<rparr>"

subsection \<open>Updates that the executor steps do not see\<close>

text \<open>
  An update \<open>u\<close> of the machine is a frame for the per-byte step and the closure when
  it leaves alone every member they read and commutes with every member update they
  make. The steps then commute with \<open>u\<close>. Instances: setting the choice stack and the
  backtracking statistics; setting the streaming members.
\<close>

definition frame :: "(FSM \<Rightarrow> FSM) \<Rightarrow> bool" where
  "frame u = (\<forall>F.
      transitions (u F) = transitions F \<and> current_state (u F) = current_state F \<and>
      debug_flags (u F) = debug_flags F \<and> trace (u F) = trace F \<and> metrics (u F) = metrics F \<and>
      captures (u F) = captures F \<and> active_captures (u F) = active_captures F \<and>
      current_input_position (u F) = current_input_position F \<and>
      (\<forall>s. map_option on_exit (states (u F) s) = map_option on_exit (states F s)) \<and>
      (\<forall>s. map_option on_entry (states (u F) s) = map_option on_entry (states F s)) \<and>
      (\<forall>x. u (F\<lparr>active_captures := x\<rparr>) = (u F)\<lparr>active_captures := x\<rparr>) \<and>
      (\<forall>x. u (F\<lparr>captures := x\<rparr>) = (u F)\<lparr>captures := x\<rparr>) \<and>
      (\<forall>x. u (F\<lparr>current_state := x\<rparr>) = (u F)\<lparr>current_state := x\<rparr>) \<and>
      (\<forall>x. u (F\<lparr>metrics := x\<rparr>) = (u F)\<lparr>metrics := x\<rparr>) \<and>
      (\<forall>x. u (F\<lparr>trace := x\<rparr>) = (u F)\<lparr>trace := x\<rparr>) \<and>
      (\<forall>x. u (F\<lparr>last_error := x\<rparr>) = (u F)\<lparr>last_error := x\<rparr>) \<and>
      (\<forall>x. u (F\<lparr>current_input_position := x\<rparr>) = (u F)\<lparr>current_input_position := x\<rparr>))"

subsection \<open>Relations between machines used in the proofs\<close>

text \<open>Setting the two members that only the backtracking executor uses.\<close>

definition bt_aux :: "ChoicePoint list \<Rightarrow> BacktrackingStats \<Rightarrow> FSM \<Rightarrow> FSM" where
  "bt_aux cs bs F = F\<lparr>choice_stack := cs, backtracking_stats := bs\<rparr>"

text \<open>\<open>F'\<close> differs from \<open>F\<close> in the capture vectors at most.\<close>

definition only_captures :: "FSM \<Rightarrow> FSM \<Rightarrow> bool" where
  "only_captures F F' = (F' = F\<lparr>captures := captures F', active_captures := active_captures F'\<rparr>)"

section \<open>Example machines\<close>

text \<open>
  Bytes are written as numbers: 97 is \<open>a\<close>, 98 is \<open>b\<close>, 120 is \<open>x\<close>, 49 is \<open>1\<close>.

  \<open>M_loop\<close>: one state, start and accepting, with a loop on \<open>a\<close>.
\<close>

definition M_loop :: FSM where
  "M_loop = FSM_config [State_of 1 START] [Transition_rule 1 1 1 (ABNF_value 97) 50] 1 [1]"

text \<open>
  \<open>M_digits\<close>: START -1-> DIGITS, DIGITS -1-> DIGITS, DIGITS -epsilon-> ACCEPT (the machine
  of the streaming tests, with the class of the one digit \<open>1\<close>).
\<close>

definition M_digits :: FSM where
  "M_digits = FSM_config [State_of 1 START, State_of 2 NORMAL, State_of 3 ACCEPT]
     [Transition_rule 1 1 2 (ABNF_value 49) 50, Transition_rule 2 2 2 (ABNF_value 49) 50,
      Transition_epsilon 3 2 3] 1 [3]"

text \<open>
  \<open>M_capture\<close>: 1 -x-> 2, then two transitions on \<open>a\<close> from 2 (to 3 and to 4), and
  4 -b-> 5, with 5 accepting. Entering state 2 begins the capture \<open>c\<close>.
\<close>

definition M_capture :: FSM where
  "M_capture = FSM_config
     [State_of 1 START, (State_of 2 NORMAL)\<lparr>on_entry := Some (\<lambda>ctx. [BeginCapture ''c''])\<rparr>,
      State_of 3 NORMAL, State_of 4 NORMAL, State_of 5 ACCEPT]
     [Transition_rule 1 1 2 (ABNF_value 120) 50, Transition_rule 2 2 3 (ABNF_value 97) 50,
      Transition_rule 3 2 4 (ABNF_value 97) 50, Transition_rule 4 4 5 (ABNF_value 98) 50] 1 [5]"

text \<open>\<open>M_choice\<close>: 1 -a-> 2 with 2 accepting; state 1 is marked as a choice point.\<close>

definition M_choice :: FSM where
  "M_choice = FSM_config [(State_of 1 START)\<lparr>is_choice_point := True\<rparr>, State_of 2 ACCEPT]
     [Transition_rule 1 1 2 (ABNF_value 97) 50] 1 [2]"

text \<open>
  \<open>M_traced\<close>: 1 -a-> 2 with 2 accepting; entering 2 begins and ends the capture \<open>c\<close>;
  transitions are traced and metrics collected.
\<close>

definition M_traced :: FSM where
  "M_traced = setDebugConfig (FSM_config
     [State_of 1 START,
      (State_of 2 ACCEPT)\<lparr>on_entry := Some (\<lambda>ctx. [BeginCapture ''c'', EndCapture ''c''])\<rparr>]
     [Transition_rule 1 1 2 (ABNF_value 97) 50] 1 [2]) (TRACE_TRANSITIONS OR COLLECT_METRICS)"



text \<open>
  \<open>M_compare\<close> (the machine of the test \<open>CompareValidateMethods\<close>): START -x-> A with
  high priority, START -x-> B with low priority, A -y-> ACCEPT, B -z-> ACCEPT.
\<close>

definition M_compare :: FSM where
  "M_compare = FSM_config
     [State_of 1 START, State_of 2 NORMAL, State_of 3 NORMAL, State_of 4 ACCEPT]
     [Transition_rule 1 1 2 (ABNF_value 120) 75, Transition_rule 2 1 3 (ABNF_value 120) 25,
      Transition_rule 3 2 4 (ABNF_value 121) 50, Transition_rule 4 3 4 (ABNF_value 122) 50]
     1 [4]"

section \<open>Runs and observations used in the statements\<close>

text \<open>
  The greedy choice without its effects: the target of the first transition of the state
  \<open>s\<close>, in the order of \<open>getTransitionsFrom\<close>, that admits the byte; and the run of such
  steps over an input, \<open>None\<close> when a byte is admitted by no transition.
\<close>

definition class_step :: "FSM \<Rightarrow> StateID \<Rightarrow> byte \<Rightarrow> StateID option" where
  "class_step F s ch = map_option t_to (find (admits ch) (getTransitionsFrom F s))"

fun class_run :: "FSM \<Rightarrow> StateID \<Rightarrow> byte list \<Rightarrow> StateID option" where
  "class_run F s [] = Some s"
| "class_run F s (ch # rest) =
     (case class_step F s ch of None \<Rightarrow> None | Some s' \<Rightarrow> class_run F s' rest)"

text \<open>The result of an executor, with the machine replaced by what \<open>f\<close> reads in it.\<close>

definition observe :: "(FSM \<Rightarrow> 'a) \<Rightarrow> exn + bool \<times> FSM \<Rightarrow> exn + bool \<times> 'a" where
  "observe f r = map_sum id (map_prod id f) r"

text \<open>
  The streaming run \<open>feed(x[0]); ...; feed(x[n-1]); endOfStream()\<close>, every call made
  whatever the calls before it returned.
\<close>

definition stream_run :: "FSM \<Rightarrow> byte list \<Rightarrow> exn + FSM" where
  "stream_run F x = (case feed_each F x of Inl e \<Rightarrow> Inl e | Inr F' \<Rightarrow> endOfStream F')"

text \<open>\<open>M_traced\<close> after \<open>validate("a")\<close> and \<open>setDebugConfig\<close> with no flag.\<close>

definition M_traced_after :: FSM where
  "M_traced_after =
     (case validate M_traced [97] of Inl e \<Rightarrow> M_traced | Inr (ok, F') \<Rightarrow> setDebugConfig F' 0)"

text \<open>
  \<open>feed(char)\<close> in two parts: \<open>feed_enter\<close> sets the streaming members and appends the byte
  to \<open>current_input_\<close>; \<open>feed_step\<close> is the rest of the body, from \<open>processCharImpl\<close> to the
  new stream state. The \<open>NO_START_STATE\<close> return of a first call lies between the two.
\<close>

definition feed_step :: "FSM \<Rightarrow> byte \<Rightarrow> exn + FSM" where
  "feed_step F0 ch =
     (case processCharImpl F0 ch (current_input_position F0) of
        Inl e \<Rightarrow> Inl e
      | Inr (ok, F1) \<Rightarrow>
          if \<not> ok then Inr (F1\<lparr>stream_state := ERROR\<rparr>)
          else
            (let F3 = (recordCharInCaptures (count_character F1) ch)
                        \<lparr>current_input_position := current_input_position F1 + 1\<rparr>
             in Inr (F3\<lparr>stream_state :=
                         (if isInAcceptState F3 then COMPLETE else WAITING_FOR_INPUT)\<rparr>)))"

definition feed_enter :: "FSM \<Rightarrow> byte \<Rightarrow> FSM" where
  "feed_enter F ch =
     (if streaming_mode F then F\<lparr>current_input := current_input F @ [ch]\<rparr>
      else F\<lparr>streaming_mode := True, stream_state := PROCESSING,
             current_input := current_input F @ [ch]\<rparr>)"

text \<open>\<open>M_digits\<close> after \<open>feed('1')\<close>.\<close>

definition M_digits_fed :: FSM where
  "M_digits_fed = (case feed M_digits 49 of Inl e \<Rightarrow> M_digits | Inr F \<Rightarrow> F)"

text \<open>
  What a result of the backtracking executor keeps: the accept set is unchanged, and a
  result that reports success has its current state in the accept set.
\<close>

definition accepting_result :: "FSM \<Rightarrow> (exn + bool \<times> FSM) option \<Rightarrow> bool" where
  "accepting_result F r =
     (case r of
        Some (Inr (b, F')) \<Rightarrow>
          accept_states F' = accept_states F \<and> (if b then current_state F' \<in> accept_states F else True)
      | _ \<Rightarrow> True)"

text \<open>
  The machine with the type of every state replaced: the state \<open>st\<close> gets the type
  \<open>f st\<close>, and nothing else changes.
\<close>

definition retype :: "(State \<Rightarrow> StateType) \<Rightarrow> FSM \<Rightarrow> FSM" where
  "retype f F = F\<lparr>states := (\<lambda>s. map_option (\<lambda>st. st\<lparr>s_type := f st\<rparr>) (states F s))\<rparr>"

text \<open>Setting the three members that only the streaming interface uses.\<close>

definition strm :: "StreamState \<Rightarrow> bool \<Rightarrow> byte list \<Rightarrow> FSM \<Rightarrow> FSM" where
  "strm ss sm ci F = F\<lparr>stream_state := ss, streaming_mode := sm, current_input := ci\<rparr>"

text \<open>
  A streaming run as a caller makes it: \<open>feed(x)\<close>, which returns at the first byte whose
  \<open>feed\<close> reports \<open>ERROR\<close>; the input is rejected when it reports \<open>ERROR\<close>, and
  otherwise accepted when \<open>endOfStream()\<close> reports \<open>COMPLETE\<close>.
\<close>

definition feed_then_end :: "FSM \<Rightarrow> byte list \<Rightarrow> exn + bool \<times> FSM" where
  "feed_then_end F x =
     (case feed_chunk F x of
        Inl e \<Rightarrow> Inl e
      | Inr S \<Rightarrow>
          if stream_state S = ERROR then Inr (False, S)
          else (case endOfStream S of
                  Inl e \<Rightarrow> Inl e
                | Inr S' \<Rightarrow> Inr (stream_state S' = COMPLETE, S')))"

text \<open>What the two interfaces are compared on: both capture lists and the current state.\<close>

definition outcome :: "FSM \<Rightarrow> CaptureGroup list \<times> ActiveCapture list \<times> StateID" where
  "outcome F = (captures F, active_captures F, current_state F)"

section \<open>Operations on character classes\<close>

lemma unat_byte_less: "unat (x :: byte) < 256"
  using unsigned_less [of x, where ?'a = nat] by simp

lemma matches_ABNF_value: "matches (ABNF_value v) ch = (ch = v)"
proof -
  have "unat ch < 256" by (rule unat_byte_less)
  then show ?thesis
    by (auto simp: matches_def ABNF_value_def setBit_def bit_exp_iff possible_bit_word
        word_unat_eq_iff)
qed

text \<open>
  Claim C9. For all classes \<open>a\<close>, \<open>b\<close> and every byte \<open>x\<close>: the complement matches \<open>x\<close>
  exactly when \<open>a\<close> does not, the union matches \<open>x\<close> exactly when \<open>a\<close> or \<open>b\<close> does, and
  the intersection matches \<open>x\<close> exactly when both do. The three operations are \<open>const\<close>
  member functions that build a fresh \<open>result\<close> object; the operands are values here,
  so \<open>a\<close> and \<open>b\<close> on the right-hand sides are the operands as they are after the call.
\<close>

theorem abnf_set_operations:
  "matches (complement a) x = (\<not> matches a x) \<and>
   matches (unionWith a b) x = (matches a x \<or> matches b x) \<and>
   matches (intersectWith a b) x = (matches a x \<and> matches b x)"
proof -
  have "unat x < 256" by (rule unat_byte_less)
  then show ?thesis
    by (simp add: matches_def complement_def unionWith_def intersectWith_def
        bit_not_iff bit_or_iff bit_and_iff possible_bit_word)
qed

section \<open>The steps commute with frame updates\<close>

lemma frame_reads:
  assumes "frame u"
  shows "transitions (u F) = transitions F" "current_state (u F) = current_state F"
    "debug_flags (u F) = debug_flags F" "trace (u F) = trace F" "metrics (u F) = metrics F"
    "captures (u F) = captures F" "active_captures (u F) = active_captures F"
    "current_input_position (u F) = current_input_position F"
    "map_option on_exit (states (u F) s) = map_option on_exit (states F s)"
    "map_option on_entry (states (u F) s) = map_option on_entry (states F s)"
  using assms unfolding frame_def by blast+

lemma frame_writes:
  assumes "frame u"
  shows "u (F\<lparr>active_captures := a\<rparr>) = (u F)\<lparr>active_captures := a\<rparr>"
    "u (F\<lparr>captures := c\<rparr>) = (u F)\<lparr>captures := c\<rparr>"
    "u (F\<lparr>current_state := s\<rparr>) = (u F)\<lparr>current_state := s\<rparr>"
    "u (F\<lparr>metrics := m\<rparr>) = (u F)\<lparr>metrics := m\<rparr>"
    "u (F\<lparr>trace := t\<rparr>) = (u F)\<lparr>trace := t\<rparr>"
    "u (F\<lparr>last_error := e\<rparr>) = (u F)\<lparr>last_error := e\<rparr>"
    "u (F\<lparr>current_input_position := p\<rparr>) = (u F)\<lparr>current_input_position := p\<rparr>"
  using assms unfolding frame_def by blast+

lemma frame_run_op: "frame u \<Longrightarrow> run_op (u F) op = map_sum id u (run_op F op)"
  by (cases op)
    (auto simp: run_op_def beginCapture_def endCapture_def Let_def frame_reads frame_writes
      split: option.splits)

lemma frame_run_ops: "frame u \<Longrightarrow> run_ops (u F) ops = map_sum id u (run_ops F ops)"
proof (induction ops arbitrary: F)
  case Nil
  then show ?case by simp
next
  case (Cons op ops)
  then show ?case by (cases "run_op F op") (simp_all add: frame_run_op)
qed

lemma frame_call_on_exit:
  assumes "frame u"
  shows "call_on_exit (u F) s pos ch = map_sum id u (call_on_exit F s pos ch)"
proof -
  have "map_option on_exit (states (u F) s) = map_option on_exit (states F s)"
    using assms by (rule frame_reads)
  then show ?thesis
    by (auto simp: call_on_exit_def frame_run_ops [OF assms] split: option.splits)
qed

lemma frame_call_on_entry:
  assumes "frame u"
  shows "call_on_entry (u F) s pos ch = map_sum id u (call_on_entry F s pos ch)"
proof -
  have "map_option on_entry (states (u F) s) = map_option on_entry (states F s)"
    using assms by (rule frame_reads)
  then show ?thesis
    by (auto simp: call_on_entry_def frame_run_ops [OF assms] split: option.splits)
qed

lemma frame_call_on_transition:
  "frame u \<Longrightarrow> call_on_transition (u F) t old new ch pos
     = map_sum id u (call_on_transition F t old new ch pos)"
  by (auto simp: call_on_transition_def frame_run_ops split: option.splits)

lemma frame_count_transition: "frame u \<Longrightarrow> count_transition (u F) b = u (count_transition F b)"
  by (simp add: count_transition_def hasCollectMetrics_def frame_reads frame_writes)

lemma frame_trace_transition:
  "frame u \<Longrightarrow> trace_transition (u F) old ch tid d = u (trace_transition F old ch tid d)"
  by (simp add: trace_transition_def hasTraceTransitions_def frame_reads frame_writes)

lemma frame_take_transition:
  assumes "frame u"
  shows "take_transition (u F) t ch pos = map_sum id u (take_transition F t ch pos)"
  unfolding take_transition_def Let_def
  by (auto simp: frame_reads [OF assms] frame_writes [OF assms, symmetric]
      frame_call_on_exit [OF assms] frame_call_on_transition [OF assms]
      frame_call_on_entry [OF assms] frame_count_transition [OF assms]
      frame_trace_transition [OF assms]
      split: sum.splits)

lemma frame_take_epsilon:
  assumes "frame u"
  shows "take_epsilon (u F) t pos = map_sum id u (take_epsilon F t pos)"
  unfolding take_epsilon_def Let_def
  by (auto simp: frame_reads [OF assms] frame_writes [OF assms, symmetric]
      frame_call_on_exit [OF assms] frame_call_on_transition [OF assms]
      frame_call_on_entry [OF assms] hasCollectMetrics_def
      frame_trace_transition [OF assms]
      split: sum.splits)

lemma frame_getTransitionsFrom: "frame u \<Longrightarrow> getTransitionsFrom (u F) s = getTransitionsFrom F s"
  by (simp add: getTransitionsFrom_def frame_reads)

lemma frame_set_error: "frame u \<Longrightarrow> set_error (u F) ty pos ch = u (set_error F ty pos ch)"
  by (simp add: set_error_def frame_reads frame_writes)

lemma frame_processCharImpl:
  assumes "frame u"
  shows "processCharImpl (u F) ch pos = map_sum id (map_prod id u) (processCharImpl F ch pos)"
  unfolding processCharImpl_def
  by (auto simp: frame_reads [OF assms] frame_getTransitionsFrom [OF assms]
      frame_set_error [OF assms] frame_take_transition [OF assms]
      split: option.splits sum.splits)

lemma frame_epsilon_loop:
  assumes "frame u"
  shows "epsilon_loop (u F) pos visited = map_sum id u (epsilon_loop F pos visited)"
proof (induction F pos visited rule: epsilon_loop.induct)
  case (1 F pos visited)
  show ?case
  proof (cases "find (unvisited_epsilon visited) (getTransitionsFrom F (current_state F))")
    case None
    then show ?thesis
      by (subst epsilon_loop.simps, subst (2) epsilon_loop.simps)
        (simp add: frame_reads [OF assms] frame_getTransitionsFrom [OF assms])
  next
    case (Some t)
    show ?thesis
    proof (cases "take_epsilon F t pos")
      case (Inl e)
      with Some show ?thesis
        by (subst epsilon_loop.simps, subst (2) epsilon_loop.simps)
          (simp add: frame_reads [OF assms] frame_getTransitionsFrom [OF assms]
            frame_take_epsilon [OF assms])
    next
      case (Inr F')
      with Some "1.IH" [OF Some Inr] show ?thesis
        by (subst epsilon_loop.simps, subst (2) epsilon_loop.simps)
          (simp add: frame_reads [OF assms] frame_getTransitionsFrom [OF assms]
            frame_take_epsilon [OF assms] id_def)
    qed
  qed
qed

lemma frame_processEpsilonTransitions:
  "frame u \<Longrightarrow> processEpsilonTransitions (u F) pos = map_sum id u (processEpsilonTransitions F pos)"
  by (simp add: processEpsilonTransitions_def frame_epsilon_loop frame_reads)

lemma frame_fields:
  "frame (\<lambda>F. F\<lparr>choice_stack := cs, backtracking_stats := bs\<rparr>)"
  "frame (\<lambda>F. F\<lparr>stream_state := ss, streaming_mode := sm, current_input := ci\<rparr>)"
  "frame (\<lambda>F. F\<lparr>stream_state := ss\<rparr>)"
  by (simp_all add: frame_def)


lemma frame_recordCharInCaptures:
  "frame u \<Longrightarrow> recordCharInCaptures (u F) ch = u (recordCharInCaptures F ch)"
  by (simp add: recordCharInCaptures_def frame_reads frame_writes)

lemma frame_count_character: "frame u \<Longrightarrow> count_character (u F) = u (count_character F)"
  by (simp add: count_character_def hasCollectMetrics_def frame_reads frame_writes)

lemma frame_updateCapturePosition:
  "frame u \<Longrightarrow> updateCapturePosition (u F) p = u (updateCapturePosition F p)"
  by (simp add: updateCapturePosition_def frame_writes)

lemma frame_validate_loop:
  assumes "frame u"
  shows "validate_loop (u F) i x = map_sum id (map_prod id u) (validate_loop F i x)"
proof (induction x arbitrary: F i)
  case Nil
  then show ?case by simp
next
  case (Cons ch rest)
  show ?case
  proof (cases "processCharImpl (updateCapturePosition F i) ch i")
    case (Inl e)
    then show ?thesis
      by (simp add: frame_updateCapturePosition [OF assms] frame_processCharImpl [OF assms])
  next
    case (Inr r)
    then show ?thesis
      by (cases r)
        (simp add: frame_updateCapturePosition [OF assms] frame_processCharImpl [OF assms]
          frame_count_character [OF assms] frame_recordCharInCaptures [OF assms] Cons.IH)
  qed
qed

section \<open>Evaluation\<close>

text \<open>The defining equations that evaluate a run of a concrete machine.\<close>

lemmas eval_defs = FSM_config_def State_of_def Transition_rule_def Transition_epsilon_def
  PRIORITY_NORMAL_def validate_def validate_init_def validate_finish_def reset_def
  resetBacktrackingStats_def clearCaptures_def isValid_def set_error_def processCharImpl_def
  getTransitionsFrom_def sort_by_priority_short admits_def t_matches_def matches_ABNF_value
  take_transition_def call_on_exit_def call_on_entry_def call_on_transition_def
  count_transition_def trace_transition_def hasCollectMetrics_def hasTraceTransitions_def
  hasTraceStateChanges_def hasFlag_def TRACE_TRANSITIONS_def TRACE_STATE_CHANGES_def
  COLLECT_METRICS_def updateCapturePosition_def recordCharInCaptures_def count_character_def
  processEpsilonTransitions_def epsilon_loop.simps unvisited_epsilon_def take_epsilon_def
  isInAcceptState_def isAcceptState_def zero_metrics_def zero_stats_def feed_def
  endOfStream_def run_op_def beginCapture_def endCapture_def Let_def getValidTransitions_def
  shouldCreateChoicePoint_def saveChoicePoint_def restoreFromChoicePoint_def backtrack_def
  count_path_def backtracking_init_def isChoicePoint_def setDebugConfig_def

section \<open>Greedy and backtracking validation\<close>

lemma frame_bt_aux: "frame (bt_aux cs bs)"
  by (simp add: frame_def bt_aux_def)

lemma bt_aux_bt_aux [simp]: "bt_aux cs bs (bt_aux cs' bs' F) = bt_aux cs bs F"
  by (simp add: bt_aux_def)

lemma bt_aux_fields [simp]:
  "accept_states (bt_aux cs bs F) = accept_states F"
  "current_state (bt_aux cs bs F) = current_state F"
  "captures (bt_aux cs bs F) = captures F"
  "active_captures (bt_aux cs bs F) = active_captures F"
  "start_state (bt_aux cs bs F) = start_state F"
  by (simp_all add: bt_aux_def)

lemma saveChoicePoint_bt_aux:
  "\<exists>cs' bs'. saveChoicePoint (bt_aux cs bs F) alts pos = bt_aux cs' bs' F"
  by (auto simp: saveChoicePoint_def bt_aux_def Let_def)

lemma count_path_bt_aux: "\<exists>bs'. count_path (bt_aux cs bs F) = bt_aux cs bs' F"
  by (auto simp: count_path_def bt_aux_def)

lemma find_filter_hd:
  "find P xs = Some t \<Longrightarrow> filter P xs \<noteq> [] \<and> hd (filter P xs) = t"
  by (induction xs) (auto split: if_splits)

lemma step_position:
  "updateCapturePosition
     (count_character ((recordCharInCaptures (bt_aux cs bs F') ch)
        \<lparr>current_input_position := current_input_position (recordCharInCaptures (bt_aux cs bs F') ch) + 1\<rparr>))
     (Suc i)
   = bt_aux cs bs (updateCapturePosition (recordCharInCaptures (count_character F') ch) (Suc i))"
  by (simp add: updateCapturePosition_def count_character_def recordCharInCaptures_def
      bt_aux_def hasCollectMetrics_def)

lemma updateCapturePosition_twice [simp]:
  "updateCapturePosition (updateCapturePosition F i) p = updateCapturePosition F p"
  by (simp add: updateCapturePosition_def)

lemma updateCapturePosition_bt_aux:
  "updateCapturePosition (bt_aux cs bs F) p = bt_aux cs bs (updateCapturePosition F p)"
  by (simp add: updateCapturePosition_def bt_aux_def)

lemma processCharImpl_True:
  assumes "processCharImpl F ch pos = Inr (True, F')"
  obtains t where "find (admits ch) (getTransitionsFrom F (current_state F)) = Some t"
    and "take_transition F t ch pos = Inr F'"
  using assms unfolding processCharImpl_def by (auto split: option.splits sum.splits)

lemma backtrack_loop_simulates:
  assumes "validate_loop F i x = Inr (True, F1)"
    and "x = drop i input" and "length x < fuel"
    and "updateCapturePosition G i = bt_aux cs bs (updateCapturePosition F i)"
  shows "\<exists>G1 cs' bs'. backtrack_loop fuel G input i = Some (Inr (True, G1)) \<and>
           updateCapturePosition G1 (length input)
             = bt_aux cs' bs' (updateCapturePosition F1 (length input))"
  using assms
proof (induction x arbitrary: F i G cs bs fuel)
  case Nil
  from Nil.prems(3) obtain k where fuel: "fuel = Suc k" by (cases fuel) auto
  from Nil.prems(2) have le: "length input \<le> i" by simp
  from Nil.prems(1) have F1: "F1 = F" by simp
  have "updateCapturePosition G (length input)
      = updateCapturePosition (updateCapturePosition G i) (length input)" by simp
  also have "\<dots> = bt_aux cs bs (updateCapturePosition F (length input))"
    by (simp only: Nil.prems(4) updateCapturePosition_bt_aux updateCapturePosition_twice)
  finally show ?case using le fuel F1 by auto
next
  case (Cons ch rest)
  from Cons.prems(3) obtain k where fuel: "fuel = Suc k" and k: "length rest < k"
    by (cases fuel) auto
  from Cons.prems(2) have lt: "i < length input"
    by (metis drop_eq_Nil list.distinct(1) not_le)
  from Cons.prems(2) lt have ch: "input ! i = ch" and rest: "rest = drop (Suc i) input"
    by (metis Cons_nth_drop_Suc list.inject)+
  let ?Fi = "updateCapturePosition F i"
  from Cons.prems(1) obtain F' where
    step: "processCharImpl ?Fi ch i = Inr (True, F')" and
    loop: "validate_loop (recordCharInCaptures (count_character F') ch) (Suc i) rest = Inr (True, F1)"
    by (auto split: sum.splits if_splits)
  from step obtain t where
    found: "find (admits ch) (getTransitionsFrom ?Fi (current_state ?Fi)) = Some t" and
    taken: "take_transition ?Fi t ch i = Inr F'"
    by (rule processCharImpl_True)
  have G0: "updateCapturePosition G i = bt_aux cs bs ?Fi" by (rule Cons.prems(4))
  have valid: "getValidTransitions (bt_aux cs bs ?Fi) ch
      = filter (admits ch) (getTransitionsFrom ?Fi (current_state ?Fi))"
    by (simp add: getValidTransitions_def frame_getTransitionsFrom [OF frame_bt_aux])
  from found have nonempty: "getValidTransitions (bt_aux cs bs ?Fi) ch \<noteq> []"
    and hd: "hd (getValidTransitions (bt_aux cs bs ?Fi) ch) = t"
    using find_filter_hd [OF found] by (simp_all add: valid)
  obtain cs1 bs1 where saved:
    "(if shouldCreateChoicePoint (bt_aux cs bs ?Fi) (getValidTransitions (bt_aux cs bs ?Fi) ch)
      then saveChoicePoint (bt_aux cs bs ?Fi) (tl (getValidTransitions (bt_aux cs bs ?Fi) ch)) i
      else bt_aux cs bs ?Fi) = bt_aux cs1 bs1 ?Fi"
    using saveChoicePoint_bt_aux [of cs bs ?Fi] by (metis (full_types))
  obtain bs2 where counted: "count_path (bt_aux cs1 bs1 ?Fi) = bt_aux cs1 bs2 ?Fi"
    using count_path_bt_aux by blast
  have taken': "take_transition (bt_aux cs1 bs2 ?Fi) t ch i = Inr (bt_aux cs1 bs2 F')"
    by (simp add: frame_take_transition [OF frame_bt_aux] taken)
  let ?G' = "count_character ((recordCharInCaptures (bt_aux cs1 bs2 F') ch)
        \<lparr>current_input_position :=
           current_input_position (recordCharInCaptures (bt_aux cs1 bs2 F') ch) + 1\<rparr>)"
  have "\<exists>G1 cs' bs'. backtrack_loop k ?G' input (Suc i) = Some (Inr (True, G1)) \<and>
           updateCapturePosition G1 (length input)
             = bt_aux cs' bs' (updateCapturePosition F1 (length input))"
    by (rule Cons.IH [OF loop rest k step_position])
  moreover have "backtrack_loop fuel G input i = backtrack_loop k ?G' input (Suc i)"
    unfolding fuel backtrack_loop.simps
    by (simp add: lt ch G0 nonempty hd saved counted taken' Let_def del: backtrack_loop.simps)
  ultimately show ?case by simp
qed


lemma backtracking_init_eq: "backtracking_init F x = validate_init F x"
  by (simp add: backtracking_init_def validate_init_def reset_def resetBacktrackingStats_def
      clearCaptures_def)

lemma validate_True:
  assumes "validate F x = Inr (True, F1)"
  obtains FL where "isValid (start_state (validate_init F x))"
    and "validate_loop (validate_init F x) 0 x = Inr (True, FL)"
    and "processEpsilonTransitions (updateCapturePosition FL (length x)) (length x) = Inr F1"
    and "isInAcceptState F1"
  using assms unfolding validate_def validate_finish_def Let_def
  by (auto split: sum.splits if_splits)

text \<open>
  Claim C5. For every machine and every input: when greedy \<open>validate(input)\<close> returns
  \<open>true\<close>, \<open>validateWithBacktracking(input)\<close> returns \<open>true\<close> as well. The backtracking
  loop is modelled with fuel; the theorem says that it returns, with any fuel above the
  input's length, and that it ends in the same state with the same closed captures.
\<close>

theorem greedy_success_implies_backtracking_success:
  assumes "validate F x = Inr (True, F1)" and "length x < fuel"
  shows "\<exists>F2. validateWithBacktracking fuel F x = Some (Inr (True, F2)) \<and>
           current_state F2 = current_state F1 \<and> captures F2 = captures F1"
proof -
  from assms(2) obtain k where fuel: "fuel = Suc k" by (cases fuel) auto
  let ?F0 = "validate_init F x"
  from assms(1) obtain FL where
    start: "isValid (start_state ?F0)" and
    loop: "validate_loop ?F0 0 x = Inr (True, FL)" and
    closure: "processEpsilonTransitions (updateCapturePosition FL (length x)) (length x) = Inr F1" and
    acc: "isInAcceptState F1"
    by (rule validate_True)
  have init: "updateCapturePosition ?F0 0
      = bt_aux (choice_stack ?F0) (backtracking_stats ?F0) (updateCapturePosition ?F0 0)"
    by (simp add: bt_aux_def updateCapturePosition_def)
  from backtrack_loop_simulates [OF loop _ _ init, of x fuel] assms(2)
  obtain G1 cs' bs' where
    bloop: "backtrack_loop fuel ?F0 x 0 = Some (Inr (True, G1))" and
    G1: "updateCapturePosition G1 (length x) = bt_aux cs' bs' (updateCapturePosition FL (length x))"
    by auto
  have closure': "processEpsilonTransitions (updateCapturePosition G1 (length x)) (length x)
      = Inr (bt_aux cs' bs' F1)"
    by (simp add: G1 frame_processEpsilonTransitions [OF frame_bt_aux] closure)
  have acc': "isInAcceptState (bt_aux cs' bs' F1)"
    using acc by (simp add: isInAcceptState_def isAcceptState_def)
  have "validateWithBacktracking fuel F x = Some (Inr (True, bt_aux cs' bs' F1))"
    using start bloop closure' acc'
    by (simp add: fuel backtracking_init_eq Let_def del: backtrack_loop.simps)
  then show ?thesis by simp
qed

theorem greedy_success_implies_backtracking_success_witness:
  "\<exists>F1 F2. validate M_compare [120, 121] = Inr (True, F1) \<and>
     length [120, 121 :: byte] < 3 \<and>
     validateWithBacktracking 3 M_compare [120, 121] = Some (Inr (True, F2)) \<and>
     current_state F2 = current_state F1 \<and> captures F2 = captures F1"
proof -
  have "\<exists>F1. validate M_compare [120, 121] = Inr (True, F1)"
    by (simp add: M_compare_def eval_defs)
  then obtain F1 where v: "validate M_compare [120, 121] = Inr (True, F1)" ..
  have "length [120, 121 :: byte] < 3" by simp
  from greedy_success_implies_backtracking_success [OF v this] v show ?thesis by auto
qed






lemma only_captures_refl [simp]: "only_captures F F"
  by (simp add: only_captures_def)

lemma only_captures_trans: "only_captures F G \<Longrightarrow> only_captures G H \<Longrightarrow> only_captures F H"
  unfolding only_captures_def by (metis (no_types) FSM.surjective FSM.update_convs(10,11))

lemma run_op_only_captures: "run_op F op = Inr F' \<Longrightarrow> only_captures F F'"
  by (cases op)
    (auto simp: run_op_def beginCapture_def endCapture_def only_captures_def Let_def
      split: if_splits option.splits sum.splits)

lemma run_ops_only_captures: "run_ops F ops = Inr F' \<Longrightarrow> only_captures F F'"
proof (induction ops arbitrary: F)
  case Nil
  then show ?case by simp
next
  case (Cons op ops)
  then show ?case
    by (auto split: sum.splits dest: run_op_only_captures intro: only_captures_trans)
qed

lemma call_on_exit_only_captures: "call_on_exit F s pos ch = Inr F' \<Longrightarrow> only_captures F F'"
  by (auto simp: call_on_exit_def split: option.splits dest: run_ops_only_captures)

lemma call_on_entry_only_captures: "call_on_entry F s pos ch = Inr F' \<Longrightarrow> only_captures F F'"
  by (auto simp: call_on_entry_def split: option.splits dest: run_ops_only_captures)

lemma call_on_transition_only_captures:
  "call_on_transition F t old new ch pos = Inr F' \<Longrightarrow> only_captures F F'"
  by (auto simp: call_on_transition_def split: option.splits dest: run_ops_only_captures)

lemma only_captures_current: "only_captures F F' \<Longrightarrow> current_state F' = current_state F"
  unfolding only_captures_def by (metis FSM.select_convs(5) FSM.surjective FSM.update_convs(10,11))

lemma take_transition_steps:
  assumes "take_transition F t ch pos = Inr F'"
  obtains F1 F2 F3 where "only_captures F F1" "only_captures F1 F2"
    "only_captures (F2\<lparr>current_state := t_to t\<rparr>) F3"
    "F' = trace_transition (count_transition F3 (current_state F \<noteq> t_to t))
            (current_state F) ch (t_id t) (t_description t)"
proof -
  from assms obtain F1 F2 F3 where
    1: "(if current_state F \<noteq> t_to t then call_on_exit F (current_state F) pos ch else Inr F) = Inr F1"
    and 2: "call_on_transition F1 t (current_state F) (t_to t) ch pos = Inr F2"
    and 3: "(if current_state F \<noteq> t_to t
             then call_on_entry (F2\<lparr>current_state := t_to t\<rparr>) (t_to t) pos ch
             else Inr (F2\<lparr>current_state := t_to t\<rparr>)) = Inr F3"
    and 4: "F' = trace_transition (count_transition F3 (current_state F \<noteq> t_to t))
            (current_state F) ch (t_id t) (t_description t)"
    unfolding take_transition_def Let_def by (auto split: sum.splits)
  from 1 have "only_captures F F1"
    by (auto split: if_splits dest: call_on_exit_only_captures)
  moreover from 2 have "only_captures F1 F2" by (rule call_on_transition_only_captures)
  moreover from 3 have "only_captures (F2\<lparr>current_state := t_to t\<rparr>) F3"
    by (auto split: if_splits dest: call_on_entry_only_captures)
  ultimately show thesis using 4 by (rule that)
qed

lemma take_transition_current:
  assumes "take_transition F t ch pos = Inr F'"
  shows "current_state F' = t_to t"
proof -
  from assms obtain F3 F2 where "only_captures (F2\<lparr>current_state := t_to t\<rparr>) F3"
    and "F' = trace_transition (count_transition F3 (current_state F \<noteq> t_to t))
            (current_state F) ch (t_id t) (t_description t)"
    by (rule take_transition_steps)
  then show ?thesis
    by (auto simp: trace_transition_def count_transition_def dest: only_captures_current)
qed

section \<open>The greedy step\<close>





text \<open>
  The part of the selection that is about priorities holds for every result \<open>ys\<close> that
  an implementation of \<open>std::sort\<close> may give for a group \<open>xs\<close>: a list with the same
  elements, in descending order of priority. Only the order among equal priorities
  depends on the implementation.
\<close>

lemma first_admitted_of_sorted_group:
  assumes "set ys = set xs"
    and "sorted_wrt (\<lambda>a b. t_priority b \<le> t_priority a) ys"
    and "find P ys = Some t"
  shows "t \<in> set xs \<and> P t \<and> (\<forall>u \<in> set xs. P u \<longrightarrow> t_priority u \<le> t_priority t)"
proof -
  from assms(3) obtain i where i: "i < length ys" "P (ys ! i)" "t = ys ! i"
    and before: "\<forall>j<i. \<not> P (ys ! j)"
    by (auto simp: find_Some_iff)
  have "t_priority u \<le> t_priority t" if "u \<in> set xs" "P u" for u
  proof -
    from that(1) assms(1) have "u \<in> set ys" by simp
    then obtain k where k: "k < length ys" "u = ys ! k"
      by (auto simp: in_set_conv_nth)
    with that(2) before have "\<not> k < i" by auto
    then consider "k = i" | "i < k" by linarith
    then show ?thesis
    proof cases
      case 1
      with k i show ?thesis by simp
    next
      case 2
      with assms(2) k i show ?thesis by (simp add: sorted_wrt_iff_nth_less)
    qed
  qed
  moreover from i have "t \<in> set ys" by simp
  then have "t \<in> set xs" by (simp add: assms(1))
  ultimately show ?thesis using i by blast
qed




section \<open>Captures under backtracking\<close>

text \<open>
  Claim C3. During every validation run, the buffer of an active capture begun at
  position \<open>s\<close> equals the input bytes from \<open>s\<close> up to the current position. The
  backtracking executor does not keep this: on \<open>M_capture\<close> and the input \<open>xab\<close> the
  capture \<open>c\<close> begins at position 0, the first alternative on \<open>a\<close> fails at \<open>b\<close>, and after
  the restore the byte recorded for the second alternative is the \<open>b\<close> of the failure
  position, not the \<open>a\<close> of the position consumed again. The run accepts at position 3
  with the buffer \<open>xbb\<close>, where the input is \<open>xab\<close>.
\<close>

theorem backtracking_restore_records_wrong_byte:
  "\<exists>F'. validateWithBacktracking 5 M_capture [120, 97, 98] = Some (Inr (True, F')) \<and>
     current_input_position F' = 3 \<and>
     active_captures F' = [\<lparr>ac_name = ''c'', ac_start_position = 0, buffer = [120, 98, 98]\<rparr>] \<and>
     buffer (hd (active_captures F')) \<noteq> take 3 [120, 97, 98]"
proof -
  have fuel: "(5::nat) = Suc (Suc (Suc (Suc (Suc 0))))" by simp
  show ?thesis unfolding fuel by (simp add: M_capture_def eval_defs)
qed

section \<open>Choice points\<close>

text \<open>
  Claim C6. A choice point is pushed when more than one alternative exists or the
  current state is flagged as a choice point, in particular when the state is flagged and
  exactly one transition admits the byte. \<open>shouldCreateChoicePoint\<close> returns \<open>false\<close>
  for a single alternative before it looks at the flag: on \<open>M_choice\<close>, whose start state
  is flagged and has one transition on \<open>a\<close>, the run on \<open>a\<close> accepts with no choice point
  created.
\<close>

theorem flagged_state_single_alternative_no_push:
  "\<exists>F'. validateWithBacktracking 2 M_choice [97] = Some (Inr (True, F')) \<and>
     isChoicePoint M_choice (start_state M_choice) \<and>
     length (getValidTransitions M_choice 97) = 1 \<and>
     \<not> shouldCreateChoicePoint M_choice (getValidTransitions M_choice 97) \<and>
     choice_stack F' = [] \<and> choice_points_created (backtracking_stats F') = 0 \<and>
     max_stack_depth (backtracking_stats F') = 0"
proof -
  have fuel: "(2::nat) = Suc (Suc 0)" by simp
  show ?thesis unfolding fuel by (simp add: M_choice_def eval_defs)
qed

section \<open>Reset\<close>

text \<open>
  Claim C8, as stated: whatever the debug configuration, after \<open>reset()\<close> the current
  state is the start state, both capture lists are empty, the choice stack is empty, the
  stream status is \<open>READY\<close>, the trace is empty and the metrics are zero. It fails on
  \<open>M_traced_after\<close>, the machine \<open>M_traced\<close> after \<open>validate("a")\<close> and
  \<open>setDebugConfig\<close> with no flag: the trace entry, the counters and the closed capture
  of the run are still there after \<open>reset()\<close>.
\<close>

theorem reset_counterexample:
  "\<not> (current_state (reset M_traced_after) = start_state M_traced_after \<and>
      captures (reset M_traced_after) = [] \<and> active_captures (reset M_traced_after) = [] \<and>
      choice_stack (reset M_traced_after) = [] \<and> stream_state (reset M_traced_after) = READY \<and>
      trace (reset M_traced_after) = [] \<and> metrics (reset M_traced_after) = zero_metrics)"
  by (simp add: M_traced_after_def M_traced_def eval_defs)

text \<open>
  Claim C8, amended. \<open>reset()\<close> sets the current state to the start state, empties the
  choice stack, sets the stream status to \<open>READY\<close> and leaves streaming mode, clears
  the last error, the input and its position, and zeroes the backtracking statistics.
  It empties the trace when a trace flag is set and zeroes the metrics when
  \<open>COLLECT_METRICS\<close> is set, and leaves them as they are otherwise. It does not touch
  the capture lists (\<open>validate\<close> and \<open>validateWithBacktracking\<close> call
  \<open>clearCaptures()\<close> after it).
\<close>

theorem reset_restores:
  "current_state (reset F) = start_state F \<and> choice_stack (reset F) = [] \<and>
   stream_state (reset F) = READY \<and> streaming_mode (reset F) = False \<and>
   last_error (reset F) = None \<and> current_input_position (reset F) = 0 \<and>
   current_input (reset F) = [] \<and> backtracking_stats (reset F) = zero_stats \<and>
   trace (reset F) = (if hasTraceTransitions F \<or> hasTraceStateChanges F then [] else trace F) \<and>
   metrics (reset F) = (if hasCollectMetrics F then zero_metrics else metrics F) \<and>
   captures (reset F) = captures F \<and> active_captures (reset F) = active_captures F"
  by (simp add: reset_def resetBacktrackingStats_def)

section \<open>Streaming errors\<close>

text \<open>
  Claim C7, as stated: once the stream state is \<open>ERROR\<close>, every later \<open>feed\<close> leaves
  it \<open>ERROR\<close> and consumes nothing. On \<open>M_loop\<close>, \<open>feed('b')\<close> gives \<open>ERROR\<close> at
  position 0, and the next \<open>feed('a')\<close> consumes the byte: the stream state is
  \<open>COMPLETE\<close> and the position 1.
\<close>

theorem stream_error_counterexample:
  "map_sum id stream_state (feed M_loop 98) = Inr ERROR \<and>
   map_sum id stream_state (feed_each M_loop [98]) = Inr ERROR \<and>
   map_sum id current_input_position (feed_each M_loop [98]) = Inr 0 \<and>
   map_sum id stream_state (feed_each M_loop [98, 97]) = Inr COMPLETE \<and>
   map_sum id current_input_position (feed_each M_loop [98, 97]) = Inr 1"
  by (simp add: M_loop_def eval_defs)

lemma frame_stream_state: "frame (\<lambda>F. F\<lparr>stream_state := s\<rparr>)"
  by (simp add: frame_def)

lemma count_character_position [simp]:
  "current_input_position (count_character F) = current_input_position F"
  by (simp add: count_character_def)

lemma recordCharInCaptures_position [simp]:
  "current_input_position (recordCharInCaptures F ch) = current_input_position F"
  by (simp add: recordCharInCaptures_def)

lemma feed_eq:
  "feed F ch =
     (if \<not> streaming_mode F \<and> \<not> isValid (start_state F)
      then Inr ((set_error (feed_enter F ch) NO_START_STATE (current_input_position F) ch)
                  \<lparr>stream_state := ERROR\<rparr>)
      else feed_step (feed_enter F ch) ch)"
proof -
  have step: "(case processCharImpl (updateCapturePosition G (current_input_position G)) ch
                  (current_input_position G) of
             Inl e \<Rightarrow> Inl e
           | Inr (ok, F1) \<Rightarrow>
               if \<not> ok then Inr (F1\<lparr>stream_state := ERROR\<rparr>)
               else
                 (let F2 = recordCharInCaptures (count_character F1) ch;
                      F3 = updateCapturePosition
                             (F2\<lparr>current_input_position := current_input_position F2 + 1\<rparr>)
                             (current_input_position F2 + 1)
                  in Inr (F3\<lparr>stream_state :=
                              (if isInAcceptState F3 then COMPLETE else WAITING_FOR_INPUT)\<rparr>)))
      = feed_step G ch" for G
  proof -
    have G: "updateCapturePosition G (current_input_position G) = G"
      by (simp add: updateCapturePosition_def)
    show ?thesis
    proof (cases "processCharImpl G ch (current_input_position G)")
      case (Inl e)
      then show ?thesis by (simp add: G feed_step_def)
    next
      case (Inr r)
      then show ?thesis
        by (cases r) (simp add: G feed_step_def Let_def updateCapturePosition_def)
    qed
  qed
  have pos: "current_input_position (feed_enter F ch) = current_input_position F"
    and start: "start_state (feed_enter F ch) = start_state F"
    by (simp_all add: feed_enter_def)
  have "feed F ch =
     (if \<not> streaming_mode F \<and> \<not> isValid (start_state (feed_enter F ch))
      then Inr ((set_error (feed_enter F ch) NO_START_STATE
                   (current_input_position (feed_enter F ch)) ch)\<lparr>stream_state := ERROR\<rparr>)
      else (case processCharImpl
                  (updateCapturePosition (feed_enter F ch) (current_input_position (feed_enter F ch)))
                  ch (current_input_position (feed_enter F ch)) of
             Inl e \<Rightarrow> Inl e
           | Inr (ok, F1) \<Rightarrow>
               if \<not> ok then Inr (F1\<lparr>stream_state := ERROR\<rparr>)
               else
                 (let F2 = recordCharInCaptures (count_character F1) ch;
                      F3 = updateCapturePosition
                             (F2\<lparr>current_input_position := current_input_position F2 + 1\<rparr>)
                             (current_input_position F2 + 1)
                  in Inr (F3\<lparr>stream_state :=
                              (if isInAcceptState F3 then COMPLETE else WAITING_FOR_INPUT)\<rparr>))))"
    unfolding feed_def feed_enter_def by (simp only: Let_def if_True if_False split: if_splits) auto
  then have "feed F ch =
     (if \<not> streaming_mode F \<and> \<not> isValid (start_state (feed_enter F ch))
      then Inr ((set_error (feed_enter F ch) NO_START_STATE
                   (current_input_position (feed_enter F ch)) ch)\<lparr>stream_state := ERROR\<rparr>)
      else feed_step (feed_enter F ch) ch)"
    by (simp only: step)
  then show ?thesis by (simp only: pos start)
qed

lemma feed_step_ignores_stream_state: "feed_step (F\<lparr>stream_state := s\<rparr>) ch = feed_step F ch"
proof -
  let ?u = "\<lambda>F. F\<lparr>stream_state := s\<rparr>"
  have p: "processCharImpl (?u F) ch (current_input_position F)
      = map_sum id (map_prod id ?u) (processCharImpl F ch (current_input_position F))"
    by (rule frame_processCharImpl [OF frame_stream_state])
  show ?thesis
  proof (cases "processCharImpl F ch (current_input_position F)")
    case (Inl e)
    then show ?thesis by (simp add: feed_step_def p)
  next
    case (Inr r)
    obtain ok F1 where r: "r = (ok, F1)" by (cases r)
    show ?thesis
      by (simp add: feed_step_def p Inr r Let_def count_character_def hasCollectMetrics_def
          recordCharInCaptures_def isInAcceptState_def isAcceptState_def)
  qed
qed

lemma feed_ignores_stream_state: "feed (F\<lparr>stream_state := s\<rparr>) ch = feed F ch"
proof (cases "streaming_mode F")
  case True
  have "feed_enter (F\<lparr>stream_state := s\<rparr>) ch = (feed_enter F ch)\<lparr>stream_state := s\<rparr>"
    using True by (simp add: feed_enter_def)
  then show ?thesis using True by (simp add: feed_eq feed_step_ignores_stream_state)
next
  case False
  then have "feed_enter (F\<lparr>stream_state := s\<rparr>) ch = feed_enter F ch"
    by (simp add: feed_enter_def)
  then show ?thesis by (simp add: feed_eq)
qed

lemma feed_error_unchanged:
  assumes "feed F ch = Inr F'" and "stream_state F' = ERROR"
  shows "F' = (feed_enter F ch)
            \<lparr>last_error := last_error F', stream_state := ERROR\<rparr>"
proof (cases "\<not> streaming_mode F \<and> \<not> isValid (start_state F)")
  case True
  with assms show ?thesis by (auto simp: feed_eq set_error_def)
next
  case False
  with assms have fs: "feed_step (feed_enter F ch) ch = Inr F'" by (simp add: feed_eq)
  then show ?thesis using assms(2)
    by (auto simp: feed_step_def processCharImpl_def set_error_def Let_def
        split: sum.splits option.splits if_splits)
qed

text \<open>
  Claim C7, amended. A \<open>feed\<close> that reports \<open>ERROR\<close> leaves the current state, the
  input position and both capture lists as they were. \<open>ERROR\<close> is not latched:
  \<open>feed\<close> never reads the stream state, so after an error the next \<open>feed\<close> does what
  it would do in any other stream state. Only \<open>feed(chunk)\<close> stops, at the first
  \<open>ERROR\<close> inside the chunk.
\<close>

theorem stream_error_not_latched:
  "(\<forall>F'. feed F ch = Inr F' \<and> stream_state F' = ERROR \<longrightarrow>
       current_state F' = current_state F \<and>
       current_input_position F' = current_input_position F \<and>
       captures F' = captures F \<and> active_captures F' = active_captures F) \<and>
   feed (F\<lparr>stream_state := ERROR\<rparr>) ch = feed F ch \<and>
   (\<forall>F'. feed F ch = Inr F' \<and> stream_state F' = ERROR \<longrightarrow> feed_chunk F (ch # rest) = Inr F')"
proof -
  have unchanged: "current_state F' = current_state F \<and>
       current_input_position F' = current_input_position F \<and>
       captures F' = captures F \<and> active_captures F' = active_captures F"
    if a: "feed F ch = Inr F' \<and> stream_state F' = ERROR" for F'
  proof -
    from a have "F' = (feed_enter F ch)\<lparr>last_error := last_error F', stream_state := ERROR\<rparr>"
      by (auto dest: feed_error_unchanged)
    then obtain e where "F' = (feed_enter F ch)\<lparr>last_error := e, stream_state := ERROR\<rparr>"
      by blast
    then show ?thesis by (simp add: feed_enter_def)
  qed
  have chunk: "feed_chunk F (ch # rest) = Inr F'"
    if "feed F ch = Inr F' \<and> stream_state F' = ERROR" for F'
    using that by simp
  have "feed (F\<lparr>stream_state := ERROR\<rparr>) ch = feed F ch"
    by (rule feed_ignores_stream_state)
  with unchanged chunk show ?thesis by blast
qed

theorem stream_error_not_latched_witness:
  "map_sum id stream_state (feed M_loop 98) = Inr ERROR \<and>
   (\<exists>F'. feed M_loop 98 = Inr F' \<and> stream_state F' = ERROR \<and>
      current_state F' = current_state M_loop \<and>
      current_input_position F' = current_input_position M_loop \<and>
      captures F' = captures M_loop \<and> active_captures F' = active_captures M_loop \<and>
      feed_chunk M_loop [98, 97] = Inr F')"
proof -
  have "\<exists>F'. feed M_loop 98 = Inr F' \<and> stream_state F' = ERROR"
    by (simp add: M_loop_def eval_defs)
  then obtain F' where f: "feed M_loop 98 = Inr F' \<and> stream_state F' = ERROR" ..
  with stream_error_not_latched [of M_loop 98 "[97]"] show ?thesis by auto
qed

lemma only_captures_graph: "only_captures F F' \<Longrightarrow> same_graph F F'"
proof -
  assume "only_captures F F'"
  then obtain c a where "F' = F\<lparr>captures := c, active_captures := a\<rparr>"
    unfolding only_captures_def by blast
  then show ?thesis by (simp add: same_graph_def)
qed

lemma same_graph_sym: "same_graph F G \<Longrightarrow> same_graph G F"
  by (simp add: same_graph_def)

lemma take_transition_graph:
  assumes "take_transition F t ch pos = Inr F'"
  shows "same_graph F F'"
proof -
  from assms obtain F1 F2 F3 where s: "only_captures F F1" "only_captures F1 F2"
    "only_captures (F2\<lparr>current_state := t_to t\<rparr>) F3"
    "F' = trace_transition (count_transition F3 (current_state F \<noteq> t_to t))
            (current_state F) ch (t_id t) (t_description t)"
    by (rule take_transition_steps)
  have "same_graph F F1" "same_graph F1 F2" "same_graph F2 F3"
    using s(1,2,3) by (auto dest: only_captures_graph)
  then have "same_graph F F3" by (blast intro: same_graph_trans)
  then show ?thesis by (simp add: s(4))
qed

lemma class_step_graph: "same_graph F F' \<Longrightarrow> class_step F' s ch = class_step F s ch"
  by (simp add: class_step_def getTransitionsFrom_def same_graph_def)

lemma class_run_graph: "same_graph F F' \<Longrightarrow> class_run F' s x = class_run F s x"
  by (induction x arbitrary: s) (simp_all add: class_step_graph split: option.splits)

lemma processCharImpl_cases:
  assumes "processCharImpl F ch pos = Inr (ok, F')"
  shows "same_graph F F'"
    and "ok \<Longrightarrow> class_step F (current_state F) ch = Some (current_state F')"
    and "\<not> ok \<Longrightarrow> class_step F (current_state F) ch = None \<and>
                  F' = set_error F NO_MATCHING_TRANSITION pos ch"
proof -
  show "same_graph F F'"
    using assms unfolding processCharImpl_def
    by (auto split: option.splits sum.splits dest: take_transition_graph
        simp: set_error_def same_graph_def)
  show "class_step F (current_state F) ch = Some (current_state F')" if ok
    using assms that unfolding processCharImpl_def class_step_def
    by (auto split: option.splits sum.splits dest: take_transition_current)
  show "class_step F (current_state F) ch = None \<and>
          F' = set_error F NO_MATCHING_TRANSITION pos ch" if "\<not> ok"
    using assms that unfolding processCharImpl_def class_step_def
    by (auto split: option.splits sum.splits)
qed

lemma step_graph [simp]:
  "same_graph F (recordCharInCaptures G ch) = same_graph F G"
  "same_graph F (count_character G) = same_graph F G"
  "same_graph F (updateCapturePosition G p) = same_graph F G"
  "same_graph F (set_error G ty pos ch) = same_graph F G"
  "same_graph (recordCharInCaptures G ch) F = same_graph G F"
  "same_graph (count_character G) F = same_graph G F"
  "same_graph (updateCapturePosition G p) F = same_graph G F"
  by (simp_all add: same_graph_def recordCharInCaptures_def count_character_def
      updateCapturePosition_def set_error_def)

lemma step_current [simp]:
  "current_state (recordCharInCaptures G ch) = current_state G"
  "current_state (count_character G) = current_state G"
  "current_state (updateCapturePosition G p) = current_state G"
  "current_state (set_error G ty pos ch) = current_state G"
  by (simp_all add: recordCharInCaptures_def count_character_def
      updateCapturePosition_def set_error_def)

lemma validate_loop_Cons_cases:
  assumes "validate_loop F i (ch # rest) = Inr (ok, F1)"
  obtains (fail) "processCharImpl (updateCapturePosition F i) ch i = Inr (False, F1)" "\<not> ok"
  | (step) F' where "processCharImpl (updateCapturePosition F i) ch i = Inr (True, F')"
      "validate_loop (recordCharInCaptures (count_character F') ch) (Suc i) rest = Inr (ok, F1)"
proof (cases "processCharImpl (updateCapturePosition F i) ch i")
  case (Inl e)
  with assms show ?thesis by simp
next
  case (Inr r)
  obtain b F' where r: "r = (b, F')" by (cases r)
  show ?thesis
  proof (cases b)
    case True
    with assms Inr r show ?thesis by (intro step [of F']) simp_all
  next
    case False
    with assms Inr r show ?thesis by (intro fail) simp_all
  qed
qed

lemma validate_loop_class_run:
  assumes "validate_loop F i x = Inr (ok, F1)"
  shows "same_graph F F1 \<and>
         class_run F (current_state F) x = (if ok then Some (current_state F1) else None)"
  using assms
proof (induction x arbitrary: F i)
  case Nil
  then show ?case by auto
next
  case (Cons ch rest)
  let ?Fi = "updateCapturePosition F i"
  from Cons.prems show ?case
  proof (cases rule: validate_loop_Cons_cases)
    case fail
    from processCharImpl_cases(1,3) [OF fail(1)] fail(2) show ?thesis
      by (simp add: class_step_graph [of F ?Fi])
  next
    case (step F')
    let ?Fn = "recordCharInCaptures (count_character F') ch"
    from processCharImpl_cases(1,2) [OF step(1)]
    have g: "same_graph F F'" and c: "class_step F (current_state F) ch = Some (current_state F')"
      by (simp_all add: class_step_graph [of F ?Fi])
    from Cons.IH [OF step(2)]
    have g': "same_graph ?Fn F1"
      and r: "class_run ?Fn (current_state ?Fn) rest = (if ok then Some (current_state F1) else None)"
      by simp_all
    from g g' have "same_graph F F1" by (auto intro: same_graph_trans)
    moreover have "class_run F (current_state F') rest
        = (if ok then Some (current_state F1) else None)"
      using r g by (simp add: class_run_graph [of F ?Fn])
    ultimately show ?thesis using c by simp
  qed
qed

lemma epsilon_loop_graph: "epsilon_loop F pos visited = Inr F' \<Longrightarrow> same_graph F F'"
proof (induction F pos visited rule: epsilon_loop.induct)
  case (1 F pos visited)
  show ?case
  proof (cases "find (unvisited_epsilon visited) (getTransitionsFrom F (current_state F))")
    case None
    with "1.prems" show ?thesis by (simp add: epsilon_loop.simps)
  next
    case (Some t)
    show ?thesis
    proof (cases "take_epsilon F t pos")
      case (Inl e)
      with Some "1.prems" show ?thesis by (simp add: epsilon_loop.simps)
    next
      case (Inr F1)
      with Some "1.prems" have "epsilon_loop F1 pos (insert (t_to t) visited) = Inr F'"
        by (simp add: epsilon_loop.simps)
      from "1.IH" [OF Some Inr this] take_epsilon_graph [OF Inr] show ?thesis
        by (rule same_graph_trans [rotated])
    qed
  qed
qed

lemma processEpsilonTransitions_graph:
  "processEpsilonTransitions F pos = Inr F' \<Longrightarrow> same_graph F F'"
  by (auto simp: processEpsilonTransitions_def dest: epsilon_loop_graph)

lemma validate_init_fields [simp]:
  "start_state (validate_init F x) = start_state F"
  "current_state (validate_init F x) = start_state F"
  "accept_states (validate_init F x) = accept_states F"
  "same_graph F (validate_init F x)"
  by (simp_all add: validate_init_def reset_def resetBacktrackingStats_def clearCaptures_def
      same_graph_def)

lemma validate_outcome:
  assumes "validate F x = Inr (ok, F')"
  shows "ok = (isValid (start_state F) \<and> class_run F (start_state F) x \<noteq> None \<and>
               current_state F' \<in> accept_states F)"
    and "accept_states F' = accept_states F"
    and "ok \<Longrightarrow> \<exists>F1. class_run F (start_state F) x = Some (current_state F1) \<and>
                  processEpsilonTransitions F1 (length x) = Inr F'"
proof -
  let ?F0 = "validate_init F x"
  have g0: "same_graph F ?F0" by simp
  show "ok = (isValid (start_state F) \<and> class_run F (start_state F) x \<noteq> None \<and>
               current_state F' \<in> accept_states F)"
    and "accept_states F' = accept_states F"
    and "ok \<Longrightarrow> \<exists>F1. class_run F (start_state F) x = Some (current_state F1) \<and>
                  processEpsilonTransitions F1 (length x) = Inr F'"
  proof (atomize (full), cases "isValid (start_state F)")
    case False
    with assms show "(ok = (isValid (start_state F) \<and> class_run F (start_state F) x \<noteq> None \<and>
               current_state F' \<in> accept_states F)) \<and> accept_states F' = accept_states F \<and>
        (ok \<longrightarrow> (\<exists>F1. class_run F (start_state F) x = Some (current_state F1) \<and>
                  processEpsilonTransitions F1 (length x) = Inr F'))"
      by (auto simp: validate_def Let_def set_error_def)
  next
    case True
    with assms obtain b F1 where loop: "validate_loop ?F0 0 x = Inr (b, F1)"
      by (cases "validate_loop ?F0 0 x") (auto simp: validate_def Let_def)
    from validate_loop_class_run [OF loop]
    have g1: "same_graph ?F0 F1"
      and run: "class_run F (start_state F) x = (if b then Some (current_state F1) else None)"
      by (simp_all add: class_run_graph [OF g0])
    have acc1: "accept_states F1 = accept_states F"
      using g1 by (simp add: same_graph_def)
    show "(ok = (isValid (start_state F) \<and> class_run F (start_state F) x \<noteq> None \<and>
               current_state F' \<in> accept_states F)) \<and> accept_states F' = accept_states F \<and>
        (ok \<longrightarrow> (\<exists>F1. class_run F (start_state F) x = Some (current_state F1) \<and>
                  processEpsilonTransitions F1 (length x) = Inr F'))"
    proof (cases b)
      case False
      with assms True loop run acc1 show ?thesis by (simp add: validate_def Let_def)
    next
      case b: True
      with assms True loop obtain F2 where
        closure: "processEpsilonTransitions (updateCapturePosition F1 (length x)) (length x) = Inr F2"
        and fin: "(ok, F') = (if \<not> isInAcceptState F2
                    then (False, set_error F2 NOT_IN_ACCEPT_STATE (length x) 0) else (True, F2))"
        by (auto simp: validate_def validate_finish_def Let_def split: sum.splits if_splits)
      from processEpsilonTransitions_graph [OF closure] acc1
      have acc2: "accept_states F2 = accept_states F"
        by (simp add: same_graph_def updateCapturePosition_def)
      from fin acc2 have "ok = (current_state F' \<in> accept_states F)"
        and "accept_states F' = accept_states F" and "ok \<longrightarrow> F' = F2"
        by (auto simp: isInAcceptState_def isAcceptState_def set_error_def split: if_splits)
      moreover have "\<exists>G. class_run F (start_state F) x = Some (current_state G) \<and>
          processEpsilonTransitions G (length x) = Inr F2"
        using run b closure by (intro exI [of _ "updateCapturePosition F1 (length x)"]) simp
      moreover have "class_run F (start_state F) x \<noteq> None" using run b by simp
      ultimately show ?thesis using True by auto
    qed
  qed
qed

lemma feed_enter_fields [simp]:
  "current_state (feed_enter F ch) = current_state F"
  "current_input_position (feed_enter F ch) = current_input_position F"
  "same_graph F (feed_enter F ch)"
  by (simp_all add: feed_enter_def same_graph_def)

lemma feed_step_cases:
  assumes "feed_step F0 ch = Inr F'"
  obtains (error) F1 where "processCharImpl F0 ch (current_input_position F0) = Inr (False, F1)"
      "F' = F1\<lparr>stream_state := ERROR\<rparr>"
  | (ok) F1 where "processCharImpl F0 ch (current_input_position F0) = Inr (True, F1)"
      "F' = ((recordCharInCaptures (count_character F1) ch)
               \<lparr>current_input_position := current_input_position F1 + 1\<rparr>)
              \<lparr>stream_state := (if isInAcceptState F1 then COMPLETE else WAITING_FOR_INPUT)\<rparr>"
proof (cases "processCharImpl F0 ch (current_input_position F0)")
  case (Inl e)
  with assms show ?thesis by (simp add: feed_step_def)
next
  case (Inr r)
  obtain b F1 where r: "r = (b, F1)" by (cases r)
  show ?thesis
  proof (cases b)
    case True
    have "isInAcceptState ((recordCharInCaptures (count_character F1) ch)
               \<lparr>current_input_position := current_input_position F1 + 1\<rparr>) = isInAcceptState F1"
      by (simp add: isInAcceptState_def isAcceptState_def recordCharInCaptures_def
          count_character_def)
    with assms Inr r True show ?thesis
      by (intro ok [of F1]) (simp_all add: feed_step_def Let_def)
  next
    case False
    with assms Inr r show ?thesis by (intro error [of F1]) (simp_all add: feed_step_def)
  qed
qed

lemma feed_success_class_step:
  assumes "feed F ch = Inr F'" and "stream_state F' \<noteq> ERROR"
  shows "class_step F (current_state F) ch = Some (current_state F')"
proof -
  from assms have fs: "feed_step (feed_enter F ch) ch = Inr F'"
    by (auto simp: feed_eq split: if_splits)
  then show ?thesis
  proof (cases rule: feed_step_cases)
    case (error F1)
    with assms(2) show ?thesis by simp
  next
    case (ok F1)
    from processCharImpl_cases(2) [OF ok(1)]
    have "class_step (feed_enter F ch) (current_state F) ch = Some (current_state F1)" by simp
    moreover have "current_state F' = current_state F1" by (simp add: ok(2))
    ultimately show ?thesis by (simp add: class_step_graph [of F "feed_enter F ch"])
  qed
qed

lemma endOfStream_streaming:
  assumes "streaming_mode F" and "endOfStream F = Inr F'"
  obtains F1 where "processEpsilonTransitions F (current_input_position F) = Inr F1"
    "F' = (if \<not> isInAcceptState F1
           then (set_error F1 NOT_IN_ACCEPT_STATE (current_input_position F1) 0)
                  \<lparr>stream_state := ERROR\<rparr>
           else F1\<lparr>stream_state := COMPLETE\<rparr>)"
proof (cases "processEpsilonTransitions F (current_input_position F)")
  case (Inl e)
  with assms show ?thesis by (simp add: endOfStream_def)
next
  case (Inr F1)
  with assms have "F' = (if \<not> isInAcceptState F1
           then (set_error F1 NOT_IN_ACCEPT_STATE (current_input_position F1) 0)
                  \<lparr>stream_state := ERROR\<rparr>
           else F1\<lparr>stream_state := COMPLETE\<rparr>)"
    by (simp add: endOfStream_def split: if_splits)
  with Inr show ?thesis by (rule that)
qed

lemma endOfStream_cases:
  assumes "endOfStream F = Inr F'"
  shows "(stream_state F' = COMPLETE) = (streaming_mode F \<and> current_state F' \<in> accept_states F)"
    and "streaming_mode F \<Longrightarrow> \<exists>F1. processEpsilonTransitions F (current_input_position F) = Inr F1
           \<and> current_state F' = current_state F1 \<and> captures F' = captures F1"
proof -
  show "(stream_state F' = COMPLETE) = (streaming_mode F \<and> current_state F' \<in> accept_states F)"
  proof (cases "streaming_mode F")
    case False
    with assms have "F' = (set_error F UNEXPECTED_END_OF_INPUT 0 0)\<lparr>stream_state := ERROR\<rparr>"
      by (simp add: endOfStream_def)
    with False show ?thesis by simp
  next
    case True
    from True assms obtain F1 where
      c: "processEpsilonTransitions F (current_input_position F) = Inr F1" and
      F': "F' = (if \<not> isInAcceptState F1
           then (set_error F1 NOT_IN_ACCEPT_STATE (current_input_position F1) 0)
                  \<lparr>stream_state := ERROR\<rparr>
           else F1\<lparr>stream_state := COMPLETE\<rparr>)"
      by (rule endOfStream_streaming)
    from processEpsilonTransitions_graph [OF c] have acc: "accept_states F1 = accept_states F"
      by (simp add: same_graph_def)
    show ?thesis
    proof (cases "isInAcceptState F1")
      case a: True
      then have "F' = F1\<lparr>stream_state := COMPLETE\<rparr>" by (simp add: F')
      with a acc True show ?thesis by (simp add: isInAcceptState_def isAcceptState_def)
    next
      case a: False
      then have "F' = (set_error F1 NOT_IN_ACCEPT_STATE (current_input_position F1) 0)
                  \<lparr>stream_state := ERROR\<rparr>" by (simp add: F')
      with a acc True show ?thesis
        by (simp add: isInAcceptState_def isAcceptState_def set_error_def)
    qed
  qed
  show "\<exists>F1. processEpsilonTransitions F (current_input_position F) = Inr F1
           \<and> current_state F' = current_state F1 \<and> captures F' = captures F1"
    if "streaming_mode F"
  proof -
    from that assms obtain F1 where
      c: "processEpsilonTransitions F (current_input_position F) = Inr F1" and
      F': "F' = (if \<not> isInAcceptState F1
           then (set_error F1 NOT_IN_ACCEPT_STATE (current_input_position F1) 0)
                  \<lparr>stream_state := ERROR\<rparr>
           else F1\<lparr>stream_state := COMPLETE\<rparr>)"
      by (rule endOfStream_streaming)
    from F' have "current_state F' = current_state F1 \<and> captures F' = captures F1"
      by (simp add: set_error_def)
    with c show ?thesis by blast
  qed
qed

section \<open>Where the epsilon closure runs\<close>

text \<open>
  Claim C2, as stated: in greedy execution the epsilon closure runs after every consumed
  byte, before the next byte is examined. On \<open>M_digits\<close>, after \<open>feed('1')\<close> the machine
  is in state 2, where the epsilon transition to the unvisited state 3 is still to be
  taken: running the closure there moves the machine to 3. The next byte is examined in
  state 2, which is why \<open>validate("11")\<close> accepts (state 3 has no transition).
\<close>

theorem closure_after_each_byte_counterexample:
  "feed M_digits 49 = Inr M_digits_fed \<and> current_state M_digits_fed = 2 \<and>
   find (unvisited_epsilon {2}) (getTransitionsFrom M_digits_fed 2)
     = Some (Transition_epsilon 3 2 3) \<and>
   map_sum id current_state
     (processEpsilonTransitions M_digits_fed (current_input_position M_digits_fed)) = Inr 3 \<and>
   observe current_state (validate M_digits [49, 49]) = Inr (True, 3)"
  by (simp add: M_digits_fed_def M_digits_def eval_defs observe_def)

text \<open>
  Claim C2, amended. In greedy execution the epsilon closure runs once, at end of input:
  \<open>validate\<close> runs it after the last byte and the streaming interface runs it in
  \<open>endOfStream\<close>. Consuming a byte follows exactly one \<open>ABNF_RULE\<close> transition and no
  epsilon edge: after a \<open>feed\<close> that succeeds the current state is the target of the
  first admitting transition of the previous state, and \<open>validate\<close> reaches its
  pre-closure state by such steps alone (\<open>class_run\<close>).
\<close>

theorem closure_only_at_end_of_input:
  "(\<forall>F'. feed F ch = Inr F' \<and> stream_state F' \<noteq> ERROR \<longrightarrow>
        class_step F (current_state F) ch = Some (current_state F')) \<and>
   (\<forall>F'. validate F x = Inr (True, F') \<longrightarrow>
        (\<exists>F1. class_run F (start_state F) x = Some (current_state F1) \<and>
              processEpsilonTransitions F1 (length x) = Inr F')) \<and>
   (\<forall>G'. streaming_mode G \<and> endOfStream G = Inr G' \<longrightarrow>
        (\<exists>G1. processEpsilonTransitions G (current_input_position G) = Inr G1 \<and>
              current_state G' = current_state G1))"
proof -
  have "class_step F (current_state F) ch = Some (current_state F')"
    if "feed F ch = Inr F' \<and> stream_state F' \<noteq> ERROR" for F'
    using that by (auto dest: feed_success_class_step)
  moreover have "\<exists>F1. class_run F (start_state F) x = Some (current_state F1) \<and>
              processEpsilonTransitions F1 (length x) = Inr F'"
    if "validate F x = Inr (True, F')" for F'
    using validate_outcome(3) [OF that] by simp
  moreover have "\<exists>G1. processEpsilonTransitions G (current_input_position G) = Inr G1 \<and>
              current_state G' = current_state G1"
    if "streaming_mode G \<and> endOfStream G = Inr G'" for G'
    using that endOfStream_cases(2) [of G G'] by blast
  ultimately show ?thesis by blast
qed

theorem closure_only_at_end_of_input_witness:
  "(\<exists>F'. feed M_digits 49 = Inr F' \<and> stream_state F' \<noteq> ERROR \<and>
        class_step M_digits (current_state M_digits) 49 = Some (current_state F')) \<and>
   (\<exists>F'. validate M_digits [49, 49] = Inr (True, F') \<and>
        (\<exists>F1. class_run M_digits (start_state M_digits) [49, 49] = Some (current_state F1) \<and>
              processEpsilonTransitions F1 (length [49, 49 :: byte]) = Inr F')) \<and>
   (\<exists>G'. streaming_mode M_digits_fed \<and> endOfStream M_digits_fed = Inr G' \<and>
        (\<exists>G1. processEpsilonTransitions M_digits_fed (current_input_position M_digits_fed) = Inr G1 \<and>
              current_state G' = current_state G1))"
proof -
  have "\<exists>F'. feed M_digits 49 = Inr F' \<and> stream_state F' \<noteq> ERROR"
    by (simp add: M_digits_def eval_defs)
  moreover have "\<exists>F'. validate M_digits [49, 49] = Inr (True, F')"
    by (simp add: M_digits_def eval_defs)
  moreover have "\<exists>G'. streaming_mode M_digits_fed \<and> endOfStream M_digits_fed = Inr G'"
    by (simp add: M_digits_fed_def M_digits_def eval_defs)
  ultimately show ?thesis
    using closure_only_at_end_of_input [of M_digits 49 "[49, 49]" M_digits_fed] by blast
qed

section \<open>Acceptance and the accept set\<close>

lemma accept_states_steps [simp]:
  "accept_states (snd (backtrack F)) = accept_states F"
  "accept_states (saveChoicePoint F alts p) = accept_states F"
  "accept_states (count_path F) = accept_states F"
  "accept_states (recordCharInCaptures F ch) = accept_states F"
  "accept_states (count_character F) = accept_states F"
  "accept_states (updateCapturePosition F p) = accept_states F"
  "accept_states (set_error F ty p ch) = accept_states F"
  "accept_states (backtracking_init F x) = accept_states F"
  by (simp_all add: backtrack_def saveChoicePoint_def count_path_def recordCharInCaptures_def
      count_character_def updateCapturePosition_def set_error_def restoreFromChoicePoint_def
      backtracking_init_def reset_def resetBacktrackingStats_def clearCaptures_def
      Let_def split: list.splits)

lemma take_transition_accept:
  "take_transition F t ch pos = Inr F' \<Longrightarrow> accept_states F' = accept_states F"
  by (auto dest: take_transition_graph simp: same_graph_def)

lemma processEpsilonTransitions_accept:
  "processEpsilonTransitions F pos = Inr F' \<Longrightarrow> accept_states F' = accept_states F"
  by (auto dest: processEpsilonTransitions_graph simp: same_graph_def)

lemma backtrack_loop_accept:
  "backtrack_loop fuel F input pos = Some (Inr (b, F')) \<Longrightarrow> accept_states F' = accept_states F"
proof (induction fuel arbitrary: F pos)
  case 0
  then show ?case by simp
next
  case (Suc fuel)
  let ?ch = "input ! pos"
  let ?F0 = "updateCapturePosition F pos"
  let ?valid = "getValidTransitions ?F0 ?ch"
  show ?case
  proof (cases "pos < length input")
    case False
    with Suc.prems show ?thesis by simp
  next
    case lt: True
    show ?thesis
    proof (cases "?valid = []")
      case True
      obtain ok F1 where bt: "backtrack ?F0 = (ok, F1)" by (cases "backtrack ?F0")
      then have acc1: "accept_states F1 = accept_states F"
        using accept_states_steps(1) [of ?F0] by simp
      show ?thesis
      proof (cases "ok \<and> choice_stack F1 \<noteq> [] \<and> remaining (hd (choice_stack F1)) \<noteq> []")
        case False
        with Suc.prems lt True bt have "F' = set_error F1 NO_MATCHING_TRANSITION pos ?ch"
          by (auto simp: Let_def split: list.splits bool.splits)
        with acc1 show ?thesis by simp
      next
        case t: True
        then obtain cp below next_trans others where
          st: "choice_stack F1 = cp # below" and rm: "remaining cp = next_trans # others"
          by (cases "choice_stack F1"; cases "remaining (hd (choice_stack F1))") auto
        let ?G = "count_character
           ((recordCharInCaptures
               (count_path (F1\<lparr>choice_stack := cp\<lparr>remaining := others\<rparr> # below,
                               current_state := t_to next_trans\<rparr>)) ?ch)
              \<lparr>current_input_position := cp_position cp + 1\<rparr>)"
        from Suc.prems lt True bt t st rm
        have "backtrack_loop fuel ?G input (cp_position cp + 1) = Some (Inr (b, F'))"
          by (simp add: Let_def)
        from Suc.IH [OF this] acc1 show ?thesis by simp
      qed
    next
      case False
      let ?F1 = "if shouldCreateChoicePoint ?F0 ?valid
                 then saveChoicePoint ?F0 (tl ?valid) pos else ?F0"
      have acc1: "accept_states ?F1 = accept_states F" by simp
      from Suc.prems lt False obtain F2 where
        tk: "take_transition (count_path ?F1) (hd ?valid) ?ch pos = Inr F2"
        by (cases "take_transition (count_path ?F1) (hd ?valid) ?ch pos") (simp_all add: Let_def)
      let ?G = "count_character ((recordCharInCaptures F2 ?ch)
                  \<lparr>current_input_position := current_input_position (recordCharInCaptures F2 ?ch) + 1\<rparr>)"
      from Suc.prems lt False tk
      have "backtrack_loop fuel ?G input (pos + 1) = Some (Inr (b, F'))"
        by (simp add: Let_def)
      from Suc.IH [OF this] take_transition_accept [OF tk] acc1 show ?thesis by simp
    qed
  qed
qed

lemma accepting_result_simps [simp]:
  "accepting_result F None"
  "accepting_result F (Some (Inl e))"
  "accepting_result F (Some (Inr (b, F'))) =
     (accept_states F' = accept_states F \<and> (b \<longrightarrow> current_state F' \<in> accept_states F))"
  by (simp_all add: accepting_result_def)

lemma accepting_result_cong:
  "accept_states G = accept_states F \<Longrightarrow> accepting_result G r = accepting_result F r"
  by (auto simp: accepting_result_def split: option.splits sum.splits)

lemma backtracking_accepts_in_accept_set:
  "accepting_result F (validateWithBacktracking fuel F x) \<and>
   accepting_result F (resume_loop fuel F x)"
proof (induction fuel arbitrary: F x)
  case 0
  show ?case by simp
next
  case (Suc k)
  have vwb: "accepting_result F (validateWithBacktracking (Suc k) F x)"
  proof -
    let ?F0 = "backtracking_init F x"
    show ?thesis
    proof (cases "isValid (start_state ?F0)")
      case False
      then show ?thesis by (simp add: Let_def)
    next
      case valid: True
      show ?thesis
      proof (cases "backtrack_loop (Suc k) ?F0 x 0")
        case None
        with valid show ?thesis by (simp add: Let_def del: backtrack_loop.simps)
      next
        case (Some r)
        show ?thesis
        proof (cases r)
          case (Inl e)
          with valid Some show ?thesis by (simp add: Let_def del: backtrack_loop.simps)
        next
          case (Inr p)
          obtain b1 F1 where p: "p = (b1, F1)" by (cases p)
          from Some Inr p have loop: "backtrack_loop (Suc k) ?F0 x 0 = Some (Inr (b1, F1))"
            by simp
          from backtrack_loop_accept [OF loop] have acc1: "accept_states F1 = accept_states F"
            by simp
          show ?thesis
          proof (cases b1)
            case False
            with valid loop acc1 show ?thesis by (simp add: Let_def del: backtrack_loop.simps)
          next
            case b1: True
            show ?thesis
            proof (cases "processEpsilonTransitions (updateCapturePosition F1 (length x)) (length x)")
              case (Inl e)
              with valid loop b1 show ?thesis by (simp add: Let_def del: backtrack_loop.simps)
            next
              case (Inr F2)
              from processEpsilonTransitions_accept [OF Inr] acc1
              have acc2: "accept_states F2 = accept_states F" by simp
              show ?thesis
              proof (cases "isInAcceptState F2")
                case True
                with valid loop b1 Inr acc2 show ?thesis
                  by (simp add: Let_def isInAcceptState_def isAcceptState_def
                      del: backtrack_loop.simps)
              next
                case False
                have "accepting_result F2 (resume_loop k F2 x)" using Suc.IH by blast
                then have "accepting_result F (resume_loop k F2 x)"
                  by (simp add: accepting_result_cong [OF acc2])
                with valid loop b1 Inr False show ?thesis
                  by (simp add: Let_def del: backtrack_loop.simps)
              qed
            qed
          qed
        qed
      qed
    qed
  qed
  have res: "accepting_result F (resume_loop (Suc k) F x)"
  proof -
    obtain ok F1 where bt: "backtrack F = (ok, F1)" by (cases "backtrack F")
    then have acc1: "accept_states F1 = accept_states F"
      using accept_states_steps(1) [of F] by simp
    show ?thesis
    proof (cases "ok \<and> choice_stack F1 \<noteq> []")
      case False
      with bt acc1 show ?thesis by (auto split: list.splits bool.splits)
    next
      case True
      then obtain cp below where st: "choice_stack F1 = cp # below" and ok: ok
        by (cases "choice_stack F1") auto
      show ?thesis
      proof (cases "remaining cp")
        case Nil
        have "accepting_result (F1\<lparr>choice_stack := below\<rparr>)
                (resume_loop k (F1\<lparr>choice_stack := below\<rparr>) x)"
          using Suc.IH by blast
        then have "accepting_result F (resume_loop k (F1\<lparr>choice_stack := below\<rparr>) x)"
          by (subst (asm) accepting_result_cong [of _ F]) (simp_all add: acc1)
        with bt ok st Nil show ?thesis by simp
      next
        case (Cons next_trans others)
        let ?F2 = "(count_path (F1\<lparr>choice_stack := cp\<lparr>remaining := others\<rparr> # below\<rparr>))
                     \<lparr>current_state := t_to next_trans\<rparr>"
        have acc2: "accept_states ?F2 = accept_states F" by (simp add: acc1)
        show ?thesis
        proof (cases "cp_position cp + 1 \<ge> length x")
          case ge: True
          show ?thesis
          proof (cases "processEpsilonTransitions ?F2 (length x)")
            case (Inl e)
            with bt ok st Cons ge show ?thesis by (simp add: Let_def)
          next
            case (Inr F3)
            from processEpsilonTransitions_accept [OF Inr] acc2
            have acc3: "accept_states F3 = accept_states F" by simp
            show ?thesis
            proof (cases "isInAcceptState F3")
              case True
              with bt ok st Cons ge Inr acc3 show ?thesis
                by (simp add: Let_def isInAcceptState_def isAcceptState_def)
            next
              case False
              have "accepting_result F3 (resume_loop k F3 x)" using Suc.IH by blast
              then have "accepting_result F (resume_loop k F3 x)"
                by (simp add: accepting_result_cong [OF acc3])
              with bt ok st Cons ge Inr False show ?thesis by (simp add: Let_def)
            qed
          qed
        next
          case lt: False
          let ?G = "?F2\<lparr>start_state := current_state ?F2\<rparr>"
          let ?rest = "drop (cp_position cp + 1) x"
          have accG: "accept_states ?G = accept_states F" by (simp add: acc1)
          have ihG: "accepting_result ?G (validateWithBacktracking k ?G ?rest)"
            using Suc.IH by blast
          show ?thesis
          proof (cases "validateWithBacktracking k ?G ?rest")
            case None
            with bt ok st Cons lt show ?thesis by (simp add: Let_def)
          next
            case (Some r)
            show ?thesis
            proof (cases r)
              case (Inl e)
              with bt ok st Cons lt Some show ?thesis by (simp add: Let_def)
            next
              case (Inr p)
              obtain success F3 where p: "p = (success, F3)" by (cases p)
              from ihG Some Inr p accG
              have acc3: "accept_states F3 = accept_states F"
                and in3: "success \<longrightarrow> current_state F3 \<in> accept_states F"
                by simp_all
              show ?thesis
              proof (cases success)
                case True
                with bt ok st Cons lt Some Inr p acc3 in3 show ?thesis by (simp add: Let_def)
              next
                case False
                let ?H = "F3\<lparr>start_state := start_state ?F2\<rparr>"
                have "accepting_result ?H (resume_loop k ?H x)" using Suc.IH by blast
                then have "accepting_result F (resume_loop k ?H x)"
                  by (subst (asm) accepting_result_cong [of _ F]) (simp_all add: acc3)
                with bt ok st Cons lt Some Inr p False show ?thesis by (simp add: Let_def)
              qed
            qed
          qed
        qed
      qed
    qed
  qed
  from vwb res show ?case by simp
qed

lemma frame_retype: "frame (retype f)"
  by (simp add: frame_def retype_def option.map_comp comp_def)

lemma retype_fields [simp]:
  "start_state (retype f F) = start_state F"
  "accept_states (retype f F) = accept_states F"
  "current_state (retype f F) = current_state F"
  "transitions (retype f F) = transitions F"
  "streaming_mode (retype f F) = streaming_mode F"
  "current_input_position (retype f F) = current_input_position F"
  "choice_stack (retype f F) = choice_stack F"
  "max_backtrack_depth (retype f F) = max_backtrack_depth F"
  "backtracking_stats (retype f F) = backtracking_stats F"
  "captures (retype f F) = captures F"
  "active_captures (retype f F) = active_captures F"
  by (simp_all add: retype_def)

lemma retype_updates:
  "retype f (F\<lparr>stream_state := ss\<rparr>) = (retype f F)\<lparr>stream_state := ss\<rparr>"
  "retype f (F\<lparr>start_state := s\<rparr>) = (retype f F)\<lparr>start_state := s\<rparr>"
  "retype f (F\<lparr>choice_stack := cs\<rparr>) = (retype f F)\<lparr>choice_stack := cs\<rparr>"
  "retype f (F\<lparr>current_input_position := p\<rparr>) = (retype f F)\<lparr>current_input_position := p\<rparr>"
  "retype f (F\<lparr>current_state := c\<rparr>) = (retype f F)\<lparr>current_state := c\<rparr>"
  by (simp_all add: retype_def)

lemma retype_validate_init: "validate_init (retype f F) x = retype f (validate_init F x)"
  by (simp add: validate_init_def reset_def resetBacktrackingStats_def clearCaptures_def
      retype_def hasTraceTransitions_def hasTraceStateChanges_def hasCollectMetrics_def)

lemma retype_isInAcceptState [simp]: "isInAcceptState (retype f F) = isInAcceptState F"
  by (simp add: isInAcceptState_def isAcceptState_def)

lemma retype_validate_finish:
  "validate_finish (retype f F) n = map_sum id (map_prod id (retype f)) (validate_finish F n)"
proof (cases "processEpsilonTransitions (updateCapturePosition F n) n")
  case (Inl e)
  then show ?thesis
    by (simp add: validate_finish_def frame_updateCapturePosition [OF frame_retype]
        frame_processEpsilonTransitions [OF frame_retype])
next
  case (Inr F')
  then show ?thesis
    by (simp add: validate_finish_def frame_updateCapturePosition [OF frame_retype]
        frame_processEpsilonTransitions [OF frame_retype] frame_set_error [OF frame_retype])
qed

lemma retype_validate:
  "validate (retype f F) x = map_sum id (map_prod id (retype f)) (validate F x)"
proof (cases "isValid (start_state F)")
  case False
  then show ?thesis
    by (simp add: validate_def Let_def retype_validate_init frame_set_error [OF frame_retype])
next
  case True
  show ?thesis
  proof (cases "validate_loop (validate_init F x) 0 x")
    case (Inl e)
    with True show ?thesis
      by (simp add: validate_def Let_def retype_validate_init
          frame_validate_loop [OF frame_retype])
  next
    case (Inr r)
    obtain b F1 where r: "r = (b, F1)" by (cases r)
    with True Inr show ?thesis
      by (simp add: validate_def Let_def retype_validate_init
          frame_validate_loop [OF frame_retype] retype_validate_finish)
  qed
qed

lemma retype_endOfStream:
  "endOfStream (retype f F) = map_sum id (retype f) (endOfStream F)"
proof (cases "streaming_mode F")
  case False
  then show ?thesis
    by (simp add: endOfStream_def frame_set_error [OF frame_retype] retype_updates)
next
  case True
  show ?thesis
  proof (cases "processEpsilonTransitions F (current_input_position F)")
    case (Inl e)
    with True show ?thesis
      by (simp add: endOfStream_def frame_processEpsilonTransitions [OF frame_retype])
  next
    case (Inr F')
    with True show ?thesis
      by (simp add: endOfStream_def frame_processEpsilonTransitions [OF frame_retype]
          frame_set_error [OF frame_retype] retype_updates)
  qed
qed

lemma retype_bt_steps:
  "getValidTransitions (retype f F) ch = getValidTransitions F ch"
  "backtrack (retype f F) = map_prod id (retype f) (backtrack F)"
  "shouldCreateChoicePoint (retype f F) v = shouldCreateChoicePoint F v"
  "saveChoicePoint (retype f F) a p = retype f (saveChoicePoint F a p)"
  "count_path (retype f F) = retype f (count_path F)"
  "backtracking_init (retype f F) x = retype f (backtracking_init F x)"
proof -
  show "getValidTransitions (retype f F) ch = getValidTransitions F ch"
    by (simp add: getValidTransitions_def frame_getTransitionsFrom [OF frame_retype])
  show "backtrack (retype f F) = map_prod id (retype f) (backtrack F)"
  proof (cases "dropWhile (\<lambda>cp. remaining cp = []) (choice_stack F)")
    case Nil
    then show ?thesis by (simp only: backtrack_def retype_fields) (simp add: retype_def)
  next
    case (Cons cp below)
    then show ?thesis
      by (simp only: backtrack_def retype_fields)
        (simp add: retype_def restoreFromChoicePoint_def Let_def)
  qed
  have "isChoicePoint (retype f F) s = isChoicePoint F s" for s
    by (simp add: isChoicePoint_def retype_def split: option.splits)
  then show "shouldCreateChoicePoint (retype f F) v = shouldCreateChoicePoint F v"
    by (simp add: shouldCreateChoicePoint_def)
  show "saveChoicePoint (retype f F) a p = retype f (saveChoicePoint F a p)"
    by (simp add: saveChoicePoint_def retype_def Let_def)
  show "count_path (retype f F) = retype f (count_path F)"
    by (simp add: count_path_def retype_def)
  show "backtracking_init (retype f F) x = retype f (backtracking_init F x)"
    by (simp add: backtracking_init_def reset_def resetBacktrackingStats_def clearCaptures_def
        retype_def hasTraceTransitions_def hasTraceStateChanges_def hasCollectMetrics_def)
qed

lemma retype_resume_step:
  "count_character
     ((recordCharInCaptures
         (count_path ((retype f F1)\<lparr>choice_stack := cs, current_state := c\<rparr>)) ch)
        \<lparr>current_input_position := p\<rparr>)
   = retype f (count_character
     ((recordCharInCaptures (count_path (F1\<lparr>choice_stack := cs, current_state := c\<rparr>)) ch)
        \<lparr>current_input_position := p\<rparr>))"
  by (simp add: retype_updates [symmetric] retype_bt_steps
      frame_recordCharInCaptures [OF frame_retype] frame_count_character [OF frame_retype])

lemma retype_forward_step:
  "count_character ((recordCharInCaptures (retype f F2) ch)\<lparr>current_input_position := p\<rparr>)
   = retype f (count_character ((recordCharInCaptures F2 ch)\<lparr>current_input_position := p\<rparr>))"
  by (simp add: retype_updates [symmetric] frame_recordCharInCaptures [OF frame_retype]
      frame_count_character [OF frame_retype])

lemma retype_backtrack_loop:
  "backtrack_loop fuel (retype f F) input pos
     = map_option (map_sum id (map_prod id (retype f))) (backtrack_loop fuel F input pos)"
proof (induction fuel arbitrary: F pos)
  case 0
  show ?case by simp
next
  case (Suc fuel)
  let ?ch = "input ! pos"
  let ?F0 = "updateCapturePosition F pos"
  let ?valid = "getValidTransitions ?F0 ?ch"
  have F0: "updateCapturePosition (retype f F) pos = retype f ?F0"
    by (rule frame_updateCapturePosition [OF frame_retype])
  show ?case
  proof (cases "pos < length input")
    case False
    then show ?thesis by simp
  next
    case lt: True
    show ?thesis
    proof (cases "?valid = []")
      case True
      obtain ok F1 where bt: "backtrack ?F0 = (ok, F1)" by (cases "backtrack ?F0")
      then have bt': "backtrack (retype f ?F0) = (ok, retype f F1)"
        by (simp add: retype_bt_steps)
      show ?thesis
      proof (cases "ok \<and> choice_stack F1 \<noteq> [] \<and> remaining (hd (choice_stack F1)) \<noteq> []")
        case False
        with lt True bt bt' show ?thesis
          by (auto simp: Let_def F0 retype_bt_steps frame_set_error [OF frame_retype]
              split: list.splits bool.splits)
      next
        case t: True
        then obtain cp below next_trans others where
          st: "choice_stack F1 = cp # below" and rm: "remaining cp = next_trans # others"
          by (cases "choice_stack F1"; cases "remaining (hd (choice_stack F1))") auto
        let ?G = "count_character
           ((recordCharInCaptures
               (count_path (F1\<lparr>choice_stack := cp\<lparr>remaining := others\<rparr> # below,
                               current_state := t_to next_trans\<rparr>)) ?ch)
              \<lparr>current_input_position := cp_position cp + 1\<rparr>)"
        have "backtrack_loop (Suc fuel) F input pos = backtrack_loop fuel ?G input (cp_position cp + 1)"
          using lt True bt t st rm by (simp add: Let_def)
        moreover have "backtrack_loop (Suc fuel) (retype f F) input pos
            = backtrack_loop fuel (retype f ?G) input (cp_position cp + 1)"
          using lt True bt' t st rm by (simp add: Let_def F0 retype_bt_steps(1) retype_resume_step)
        ultimately show ?thesis by (simp only: Suc.IH)
      qed
    next
      case False
      let ?F1 = "if shouldCreateChoicePoint ?F0 ?valid
                 then saveChoicePoint ?F0 (tl ?valid) pos else ?F0"
      have F1: "(if shouldCreateChoicePoint (retype f ?F0) ?valid
                 then saveChoicePoint (retype f ?F0) (tl ?valid) pos else retype f ?F0)
          = retype f ?F1"
        by (simp add: retype_bt_steps)
      have tk': "take_transition (count_path (retype f ?F1)) (hd ?valid) ?ch pos
          = map_sum id (retype f) (take_transition (count_path ?F1) (hd ?valid) ?ch pos)"
        by (simp only: retype_bt_steps frame_take_transition [OF frame_retype])
      have unf: "backtrack_loop (Suc fuel) G input pos =
          (case take_transition
                  (count_path (if shouldCreateChoicePoint (updateCapturePosition G pos)
                                    (getValidTransitions (updateCapturePosition G pos) ?ch)
                               then saveChoicePoint (updateCapturePosition G pos)
                                      (tl (getValidTransitions (updateCapturePosition G pos) ?ch)) pos
                               else updateCapturePosition G pos))
                  (hd (getValidTransitions (updateCapturePosition G pos) ?ch)) ?ch pos of
             Inl e \<Rightarrow> Some (Inl e)
           | Inr F2 \<Rightarrow>
               backtrack_loop fuel
                 (count_character ((recordCharInCaptures F2 ?ch)
                    \<lparr>current_input_position := current_input_position F2 + 1\<rparr>))
                 input (pos + 1))"
        if "getValidTransitions (updateCapturePosition G pos) ?ch \<noteq> []" for G
        using lt that by (simp add: Let_def split: sum.split)
      have v': "getValidTransitions (updateCapturePosition (retype f F) pos) ?ch = ?valid"
        by (simp add: F0 retype_bt_steps(1))
      have ne': "getValidTransitions (updateCapturePosition (retype f F) pos) ?ch \<noteq> []"
        using False by (simp add: v')
      note u1 = unf [OF ne']
      note u2 = unf [OF False]
      have "backtrack_loop (Suc fuel) (retype f F) input pos =
          (case take_transition (count_path (retype f ?F1)) (hd ?valid) ?ch pos of
             Inl e \<Rightarrow> Some (Inl e)
           | Inr F2 \<Rightarrow>
               backtrack_loop fuel
                 (count_character ((recordCharInCaptures F2 ?ch)
                    \<lparr>current_input_position := current_input_position F2 + 1\<rparr>))
                 input (pos + 1))"
        by (unfold u1 F0 retype_bt_steps(1) F1) (rule refl)
      also have "\<dots> =
          (case take_transition (count_path ?F1) (hd ?valid) ?ch pos of
             Inl e \<Rightarrow> Some (Inl e)
           | Inr F2 \<Rightarrow>
               backtrack_loop fuel
                 (retype f (count_character ((recordCharInCaptures F2 ?ch)
                    \<lparr>current_input_position := current_input_position F2 + 1\<rparr>)))
                 input (pos + 1))"
        by (cases "take_transition (count_path ?F1) (hd ?valid) ?ch pos")
          (simp_all only: tk' map_sum.simps id_apply sum.case retype_forward_step retype_fields)
      also have "\<dots> = map_option (map_sum id (map_prod id (retype f)))
          (case take_transition (count_path ?F1) (hd ?valid) ?ch pos of
             Inl e \<Rightarrow> Some (Inl e)
           | Inr F2 \<Rightarrow>
               backtrack_loop fuel
                 (count_character ((recordCharInCaptures F2 ?ch)
                    \<lparr>current_input_position := current_input_position F2 + 1\<rparr>))
                 input (pos + 1))"
        by (cases "take_transition (count_path ?F1) (hd ?valid) ?ch pos")
          (simp_all add: Suc.IH id_def)
      also have "\<dots> = map_option (map_sum id (map_prod id (retype f)))
          (backtrack_loop (Suc fuel) F input pos)"
        by (unfold u2) (rule refl)
      finally show ?thesis .
    qed
  qed
qed

lemma retype_backtracking:
  "validateWithBacktracking fuel (retype f F) x
     = map_option (map_sum id (map_prod id (retype f))) (validateWithBacktracking fuel F x) \<and>
   resume_loop fuel (retype f F) x
     = map_option (map_sum id (map_prod id (retype f))) (resume_loop fuel F x)"
proof (induction fuel arbitrary: F x)
  case 0
  show ?case by simp
next
  case (Suc k)
  have ihv: "validateWithBacktracking k (retype f G) y
     = map_option (map_sum id (map_prod id (retype f))) (validateWithBacktracking k G y)" for G y
    using Suc.IH by blast
  have ihr: "resume_loop k (retype f G) y
     = map_option (map_sum id (map_prod id (retype f))) (resume_loop k G y)" for G y
    using Suc.IH by blast
  have vwb: "validateWithBacktracking (Suc k) (retype f F) x
     = map_option (map_sum id (map_prod id (retype f))) (validateWithBacktracking (Suc k) F x)"
  proof -
    let ?F0 = "backtracking_init F x"
    have init: "backtracking_init (retype f F) x = retype f ?F0"
      by (rule retype_bt_steps)
    have loop': "backtrack_loop (Suc k) (retype f ?F0) x 0
        = map_option (map_sum id (map_prod id (retype f))) (backtrack_loop (Suc k) ?F0 x 0)"
      by (rule retype_backtrack_loop)
    show ?thesis
    proof (cases "isValid (start_state ?F0)")
      case False
      then show ?thesis
        by (simp add: Let_def init frame_set_error [OF frame_retype])
    next
      case valid: True
      then have valid': "isValid (start_state (retype f ?F0))" by simp
      show ?thesis
      proof (cases "backtrack_loop (Suc k) ?F0 x 0")
        case None
        with valid valid' loop' show ?thesis
          by (simp add: Let_def init del: backtrack_loop.simps)
      next
        case (Some r)
        show ?thesis
        proof (cases r)
          case (Inl e)
          with valid valid' loop' Some show ?thesis
            by (simp add: Let_def init del: backtrack_loop.simps)
        next
          case (Inr p)
          obtain b1 F1 where p: "p = (b1, F1)" by (cases p)
          from Some Inr p have loop: "backtrack_loop (Suc k) ?F0 x 0 = Some (Inr (b1, F1))"
            by simp
          with loop' have loopr:
            "backtrack_loop (Suc k) (retype f ?F0) x 0 = Some (Inr (b1, retype f F1))"
            by simp
          show ?thesis
          proof (cases b1)
            case False
            with valid valid' loop loopr show ?thesis
              by (simp add: Let_def init del: backtrack_loop.simps)
          next
            case b1: True
            let ?E = "processEpsilonTransitions (updateCapturePosition F1 (length x)) (length x)"
            have eps': "processEpsilonTransitions
                  (updateCapturePosition (retype f F1) (length x)) (length x)
                = map_sum id (retype f) ?E"
              by (simp add: frame_updateCapturePosition [OF frame_retype]
                  frame_processEpsilonTransitions [OF frame_retype])
            show ?thesis
            proof (cases ?E)
              case (Inl e)
              with eps' valid valid' loop loopr b1 show ?thesis
                by (simp add: Let_def init del: backtrack_loop.simps)
            next
              case (Inr F2)
              with eps' have epsr: "processEpsilonTransitions
                  (updateCapturePosition (retype f F1) (length x)) (length x) = Inr (retype f F2)"
                by simp
              show ?thesis
              proof (cases "isInAcceptState F2")
                case True
                with valid valid' loop loopr b1 Inr epsr show ?thesis
                  by (simp add: Let_def init del: backtrack_loop.simps)
              next
                case False
                with valid valid' loop loopr b1 Inr epsr show ?thesis
                  by (simp add: Let_def init ihr del: backtrack_loop.simps)
              qed
            qed
          qed
        qed
      qed
    qed
  qed
  have res: "resume_loop (Suc k) (retype f F) x
     = map_option (map_sum id (map_prod id (retype f))) (resume_loop (Suc k) F x)"
  proof -
    obtain ok F1 where bt: "backtrack F = (ok, F1)" by (cases "backtrack F")
    then have bt': "backtrack (retype f F) = (ok, retype f F1)"
      by (simp add: retype_bt_steps)
    show ?thesis
    proof (cases "ok \<and> choice_stack F1 \<noteq> []")
      case False
      with bt bt' show ?thesis
        by (auto simp: frame_set_error [OF frame_retype] split: list.splits bool.splits)
    next
      case True
      then obtain cp below where st: "choice_stack F1 = cp # below" and ok: ok
        by (cases "choice_stack F1") auto
      have st': "choice_stack (retype f F1) = cp # below" using st by simp
      show ?thesis
      proof (cases "remaining cp")
        case Nil
        have "resume_loop (Suc k) F x = resume_loop k (F1\<lparr>choice_stack := below\<rparr>) x"
          using bt ok st Nil by simp
        moreover have "resume_loop (Suc k) (retype f F) x
            = resume_loop k (retype f (F1\<lparr>choice_stack := below\<rparr>)) x"
          using bt' ok st' Nil by (simp add: retype_updates)
        ultimately show ?thesis by (simp only: ihr)
      next
        case (Cons next_trans others)
        let ?F2 = "(count_path (F1\<lparr>choice_stack := cp\<lparr>remaining := others\<rparr> # below\<rparr>))
                     \<lparr>current_state := t_to next_trans\<rparr>"
        have F2': "(count_path ((retype f F1)\<lparr>choice_stack := cp\<lparr>remaining := others\<rparr> # below\<rparr>))
                     \<lparr>current_state := t_to next_trans\<rparr> = retype f ?F2"
          by (simp add: retype_updates [symmetric] retype_bt_steps)
        show ?thesis
        proof (cases "cp_position cp + 1 \<ge> length x")
          case ge: True
          let ?E = "processEpsilonTransitions ?F2 (length x)"
          have eps': "processEpsilonTransitions (retype f ?F2) (length x)
              = map_sum id (retype f) ?E"
            by (rule frame_processEpsilonTransitions [OF frame_retype])
          have L: "resume_loop (Suc k) F x =
              (case ?E of Inl e \<Rightarrow> Some (Inl e)
               | Inr F3 \<Rightarrow> if isInAcceptState F3 then Some (Inr (True, F3))
                            else resume_loop k F3 x)"
            using bt ok st Cons ge by (simp add: Let_def split: sum.split)
          have R: "resume_loop (Suc k) (retype f F) x =
              (case processEpsilonTransitions (retype f ?F2) (length x) of Inl e \<Rightarrow> Some (Inl e)
               | Inr F3 \<Rightarrow> if isInAcceptState F3 then Some (Inr (True, F3))
                            else resume_loop k F3 x)"
            using bt' ok st' Cons ge by (simp add: Let_def F2' split: sum.split)
          show ?thesis
            by (cases ?E) (simp_all add: L R eps' ihr del: resume_loop.simps)
        next
          case lt: False
          let ?G = "?F2\<lparr>start_state := current_state ?F2\<rparr>"
          let ?rest = "drop (cp_position cp + 1) x"
          let ?V = "validateWithBacktracking k ?G ?rest"
          have G': "(retype f ?F2)\<lparr>start_state := current_state (retype f ?F2)\<rparr> = retype f ?G"
            by (simp add: retype_updates [symmetric])
          have unf: "resume_loop (Suc k) G x =
              (case validateWithBacktracking k
                      (((count_path (G1\<lparr>choice_stack := cp\<lparr>remaining := others\<rparr> # below\<rparr>))
                          \<lparr>current_state := t_to next_trans\<rparr>)
                         \<lparr>start_state := current_state
                            ((count_path (G1\<lparr>choice_stack := cp\<lparr>remaining := others\<rparr> # below\<rparr>))
                               \<lparr>current_state := t_to next_trans\<rparr>)\<rparr>) ?rest of
                 None \<Rightarrow> None | Some (Inl e) \<Rightarrow> Some (Inl e)
               | Some (Inr (success, F3)) \<Rightarrow>
                   if success
                   then Some (Inr (True, F3\<lparr>start_state := start_state
                            ((count_path (G1\<lparr>choice_stack := cp\<lparr>remaining := others\<rparr> # below\<rparr>))
                               \<lparr>current_state := t_to next_trans\<rparr>)\<rparr>))
                   else resume_loop k (F3\<lparr>start_state := start_state
                            ((count_path (G1\<lparr>choice_stack := cp\<lparr>remaining := others\<rparr> # below\<rparr>))
                               \<lparr>current_state := t_to next_trans\<rparr>)\<rparr>) x)"
            if "backtrack G = (True, G1)" "choice_stack G1 = cp # below" for G G1
            using that Cons lt
            by (simp add: Let_def split: option.split sum.split prod.split)
          from bt ok have btT: "backtrack F = (True, F1)" by simp
          from bt' ok have btT': "backtrack (retype f F) = (True, retype f F1)" by simp
          note L = unf [OF btT st]
          have st2: "start_state (retype f ?F2) = start_state ?F2" by simp
          have R: "resume_loop (Suc k) (retype f F) x =
              (case validateWithBacktracking k (retype f ?G) ?rest of
                 None \<Rightarrow> None | Some (Inl e) \<Rightarrow> Some (Inl e)
               | Some (Inr (success, F3)) \<Rightarrow>
                   if success then Some (Inr (True, F3\<lparr>start_state := start_state ?F2\<rparr>))
                   else resume_loop k (F3\<lparr>start_state := start_state ?F2\<rparr>) x)"
            by (unfold unf [OF btT' st'] F2' G' st2) (rule refl)
          show ?thesis
          proof (cases ?V)
            case None
            then show ?thesis by (simp add: L R ihv del: resume_loop.simps)
          next
            case (Some r)
            show ?thesis
            proof (cases r)
              case (Inl e)
              with Some show ?thesis by (simp add: L R ihv del: resume_loop.simps)
            next
              case (Inr p)
              obtain success F3 where p: "p = (success, F3)" by (cases p)
              have upd: "retype f (F3\<lparr>start_state := s\<rparr>) = (retype f F3)\<lparr>start_state := s\<rparr>"
                for s by (simp add: retype_updates)
              have "resume_loop k ((retype f F3)\<lparr>start_state := s\<rparr>) x
                  = map_option (map_sum id (map_prod id (retype f)))
                      (resume_loop k (F3\<lparr>start_state := s\<rparr>) x)" for s
                by (simp only: upd [symmetric] ihr)
              with Some Inr p show ?thesis
                by (simp add: L R ihv upd del: resume_loop.simps)
            qed
          qed
        qed
      qed
    qed
  qed
  from vwb res show ?case by (rule conjI)
qed

subsection \<open>The claim on acceptance\<close>

text \<open>
  Claim C10, as stated: \<open>validate\<close>, \<open>validateWithBacktracking\<close> and \<open>endOfStream\<close>
  succeed if and only if the final current state is in the accept set. The direction
  from membership to success fails when a byte is not admitted: \<open>M_loop\<close> (one state,
  the start state, accepting, with a loop on \<open>a\<close>) rejects the input \<open>b\<close> with
  \<open>NO_MATCHING_TRANSITION\<close> in both executors, and the machine is left in its only state,
  which is in the accept set.
\<close>

theorem accept_state_without_success_counterexample:
  "observe isInAcceptState (validate M_loop [98]) = Inr (False, True) \<and>
   map_option (observe isInAcceptState) (validateWithBacktracking 2 M_loop [98])
     = Some (Inr (False, True))"
proof -
  have fuel: "(2::nat) = Suc (Suc 0)" by simp
  show ?thesis unfolding fuel by (simp add: M_loop_def eval_defs observe_def)
qed

text \<open>
  Claim C10, amended. Acceptance reads the accept set and never \<open>State.type\<close>:
  \<^item> \<open>validate\<close> returns \<open>true\<close> exactly when the start state is valid, every byte was
    admitted, and the state after the closing epsilon moves is in the accept set;
  \<^item> \<open>endOfStream\<close> reports \<open>COMPLETE\<close> exactly when the machine is in streaming mode
    and the state after the epsilon moves is in the accept set;
  \<^item> when \<open>validateWithBacktracking\<close> returns \<open>true\<close> the current state is in the
    accept set;
  \<^item> the three results are the same whatever the types of the states are (\<open>retype f\<close>
    gives every state the type that \<open>f\<close> chooses);
  \<^item> after \<open>removeAcceptState s\<close>, which leaves the states and their types as they
    are, a \<open>validate\<close> that ends in \<open>s\<close> fails.
\<close>

theorem acceptance_by_accept_set:
  "(\<forall>ok F'. validate F x = Inr (ok, F') \<longrightarrow>
      ok = (isValid (start_state F) \<and> class_run F (start_state F) x \<noteq> None \<and>
            current_state F' \<in> accept_states F)) \<and>
   (\<forall>G'. endOfStream G = Inr G' \<longrightarrow>
      (stream_state G' = COMPLETE) = (streaming_mode G \<and> current_state G' \<in> accept_states G)) \<and>
   (\<forall>H'. validateWithBacktracking fuel H y = Some (Inr (True, H')) \<longrightarrow>
      current_state H' \<in> accept_states H) \<and>
   validate (retype f F) x = observe (retype f) (validate F x) \<and>
   endOfStream (retype f G) = map_sum id (retype f) (endOfStream G) \<and>
   validateWithBacktracking fuel (retype f H) y
     = map_option (observe (retype f)) (validateWithBacktracking fuel H y) \<and>
   (\<forall>ok K'. validate (removeAcceptState K s) z = Inr (ok, K') \<and> current_state K' = s
      \<longrightarrow> \<not> ok) \<and>
   states (removeAcceptState K s) = states K"
proof -
  have a: "ok = (isValid (start_state F) \<and> class_run F (start_state F) x \<noteq> None \<and>
            current_state F' \<in> accept_states F)"
    if "validate F x = Inr (ok, F')" for ok F'
    using validate_outcome(1) [OF that] .
  have b: "(stream_state G' = COMPLETE) = (streaming_mode G \<and> current_state G' \<in> accept_states G)"
    if "endOfStream G = Inr G'" for G'
    using endOfStream_cases(1) [OF that] .
  have c: "current_state H' \<in> accept_states H"
    if "validateWithBacktracking fuel H y = Some (Inr (True, H'))" for H'
    using backtracking_accepts_in_accept_set [of H fuel y] that by simp
  have d: "validate (retype f F) x = observe (retype f) (validate F x)"
    by (simp add: retype_validate observe_def)
  have e: "endOfStream (retype f G) = map_sum id (retype f) (endOfStream G)"
    by (rule retype_endOfStream)
  have g: "validateWithBacktracking fuel (retype f H) y
     = map_option (observe (retype f)) (validateWithBacktracking fuel H y)"
  proof -
    have "observe (retype f) = map_sum id (map_prod id (retype f))"
      by (rule ext) (simp add: observe_def)
    with retype_backtracking [of fuel f H y] show ?thesis by simp
  qed
  have h: "\<not> ok"
    if "validate (removeAcceptState K s) z = Inr (ok, K') \<and> current_state K' = s" for ok K'
    using validate_outcome(1) [of "removeAcceptState K s" z ok K'] that
    by (simp add: removeAcceptState_def)
  have i: "states (removeAcceptState K s) = states K"
    by (simp add: removeAcceptState_def)
  from a b c h have "(\<forall>ok F'. validate F x = Inr (ok, F') \<longrightarrow>
      ok = (isValid (start_state F) \<and> class_run F (start_state F) x \<noteq> None \<and>
            current_state F' \<in> accept_states F)) \<and>
   (\<forall>G'. endOfStream G = Inr G' \<longrightarrow>
      (stream_state G' = COMPLETE) = (streaming_mode G \<and> current_state G' \<in> accept_states G)) \<and>
   (\<forall>H'. validateWithBacktracking fuel H y = Some (Inr (True, H')) \<longrightarrow>
      current_state H' \<in> accept_states H) \<and>
   (\<forall>ok K'. validate (removeAcceptState K s) z = Inr (ok, K') \<and> current_state K' = s
      \<longrightarrow> \<not> ok)"
    by blast
  with d e g i show ?thesis by blast
qed

theorem acceptance_by_accept_set_witness:
  "(\<exists>F'. validate M_loop [97] = Inr (True, F') \<and>
      current_state F' \<in> accept_states M_loop \<and>
      map_option s_type (states F' (current_state F')) = Some START) \<and>
   (\<exists>G'. endOfStream M_digits_fed = Inr G' \<and> stream_state G' = COMPLETE \<and>
      current_state G' \<in> accept_states M_digits_fed) \<and>
   (\<exists>H'. validateWithBacktracking 3 M_loop [97] = Some (Inr (True, H')) \<and>
      current_state H' \<in> accept_states M_loop) \<and>
   (\<exists>K'. validate (removeAcceptState M_choice 2) [97] = Inr (False, K') \<and>
      current_state K' = 2 \<and> map_option s_type (states K' 2) = Some ACCEPT) \<and>
   observe current_state (validate (retype (\<lambda>st. NORMAL) M_loop) [97]) = Inr (True, 1)"
proof -
  have fuel: "(3::nat) = Suc (Suc (Suc 0))" by simp
  have "\<exists>F'. validate M_loop [97] = Inr (True, F') \<and>
      map_option s_type (states F' (current_state F')) = Some START"
    by (simp add: M_loop_def eval_defs)
  moreover have "\<exists>G'. endOfStream M_digits_fed = Inr G' \<and> stream_state G' = COMPLETE"
    by (simp add: M_digits_fed_def M_digits_def eval_defs)
  moreover have "\<exists>H'. validateWithBacktracking 3 M_loop [97] = Some (Inr (True, H'))"
    unfolding fuel by (simp add: M_loop_def eval_defs)
  moreover have "\<exists>K'. validate (removeAcceptState M_choice 2) [97] = Inr (False, K') \<and>
      current_state K' = 2 \<and> map_option s_type (states K' 2) = Some ACCEPT"
    by (simp add: M_choice_def removeAcceptState_def eval_defs)
  moreover have "observe current_state (validate M_loop [97]) = Inr (True, 1)"
    by (simp add: M_loop_def eval_defs observe_def)
  ultimately show ?thesis
    using acceptance_by_accept_set [where F = M_loop and x = "[97]" and G = M_digits_fed
        and fuel = 3 and H = M_loop and y = "[97]" and K = M_choice and s = 2 and z = "[97]"
        and f = "\<lambda>st. NORMAL"]
    by (auto simp: observe_def)
qed

section \<open>One-shot and streaming validation\<close>

lemma frame_strm: "frame (strm ss sm ci)"
  unfolding strm_def by (rule frame_fields)

lemma strm_fields [simp]:
  "stream_state (strm ss sm ci F) = ss"
  "streaming_mode (strm ss sm ci F) = sm"
  "current_input (strm ss sm ci F) = ci"
  "accept_states (strm ss sm ci F) = accept_states F"
  "start_state (strm ss sm ci F) = start_state F"
  "current_state (strm ss sm ci F) = current_state F"
  "current_input_position (strm ss sm ci F) = current_input_position F"
  "captures (strm ss sm ci F) = captures F"
  "active_captures (strm ss sm ci F) = active_captures F"
  by (simp_all add: strm_def)

lemma strm_strm [simp]: "strm ss sm ci (strm ss' sm' ci' F) = strm ss sm ci F"
  by (simp add: strm_def)

lemma only_captures_position:
  assumes "only_captures F F'"
  shows "current_input_position F' = current_input_position F"
proof -
  from assms obtain c a where "F' = F\<lparr>captures := c, active_captures := a\<rparr>"
    unfolding only_captures_def by blast
  then show ?thesis by simp
qed

lemma take_transition_position:
  assumes "take_transition F t ch pos = Inr F'"
  shows "current_input_position F' = current_input_position F"
proof -
  from assms obtain F1 F2 F3 where "only_captures F F1" "only_captures F1 F2"
    "only_captures (F2\<lparr>current_state := t_to t\<rparr>) F3"
    "F' = trace_transition (count_transition F3 (current_state F \<noteq> t_to t))
            (current_state F) ch (t_id t) (t_description t)"
    by (rule take_transition_steps)
  then show ?thesis
    by (auto simp: trace_transition_def count_transition_def dest!: only_captures_position)
qed

lemma processCharImpl_position:
  assumes "processCharImpl F ch pos = Inr (ok, F')"
  shows "current_input_position F' = current_input_position F"
  using assms unfolding processCharImpl_def
  by (auto split: option.splits sum.splits dest: take_transition_position simp: set_error_def)

lemma feed_chunk_feed_each:
  "feed_chunk F x = Inr S \<Longrightarrow> stream_state S \<noteq> ERROR \<Longrightarrow> feed_each F x = Inr S"
proof (induction x arbitrary: F)
  case Nil
  then show ?case by simp
next
  case (Cons ch rest)
  from Cons.prems(1) obtain F' where f: "feed F ch = Inr F'"
    by (cases "feed F ch") simp_all
  with Cons.prems have ne: "stream_state F' \<noteq> ERROR" by auto
  with Cons.prems(1) f have "feed_chunk F' rest = Inr S" by simp
  from Cons.IH [OF this Cons.prems(2)] f show ?case by simp
qed

lemma feed_enter_strm:
  "feed_enter (strm ss sm ci W) ch = strm (if sm then ss else PROCESSING) True (ci @ [ch]) W"
  by (simp add: feed_enter_def strm_def)

lemma feed_step_strm:
  assumes "current_input_position W = i"
  shows "feed_step (strm ss True ci W) ch =
     (case processCharImpl W ch i of
        Inl e \<Rightarrow> Inl e
      | Inr (ok, F1) \<Rightarrow>
          if \<not> ok then Inr (strm ERROR True ci F1)
          else Inr (strm (if isInAcceptState F1 then COMPLETE else WAITING_FOR_INPUT) True ci
                      (updateCapturePosition (recordCharInCaptures (count_character F1) ch) (Suc i))))"
proof -
  let ?u = "strm ss True ci"
  have p: "processCharImpl (?u W) ch i = map_sum id (map_prod id ?u) (processCharImpl W ch i)"
    by (rule frame_processCharImpl [OF frame_strm])
  show ?thesis
  proof (cases "processCharImpl W ch i")
    case (Inl e)
    then show ?thesis by (simp add: feed_step_def assms p)
  next
    case (Inr r)
    obtain ok F1 where r: "r = (ok, F1)" by (cases r)
    from Inr r assms have pos: "current_input_position F1 = i"
      by (auto dest: processCharImpl_position)
    show ?thesis
    proof (cases ok)
      case False
      with Inr r show ?thesis by (simp add: feed_step_def assms p, simp add: strm_def)
    next
      case True
      have "recordCharInCaptures (count_character (?u F1)) ch
          = ?u (recordCharInCaptures (count_character F1) ch)"
        by (simp add: frame_count_character [OF frame_strm]
            frame_recordCharInCaptures [OF frame_strm])
      with Inr r True pos show ?thesis
        by (simp add: feed_step_def assms p Let_def)
          (simp add: strm_def updateCapturePosition_def isInAcceptState_def isAcceptState_def
            recordCharInCaptures_def count_character_def)
    qed
  qed
qed

lemma feed_strm:
  assumes "current_input_position W = i" and "sm \<or> isValid (start_state W)"
  shows "feed (strm ss sm ci W) ch =
     (case processCharImpl W ch i of
        Inl e \<Rightarrow> Inl e
      | Inr (ok, F1) \<Rightarrow>
          if \<not> ok then Inr (strm ERROR True (ci @ [ch]) F1)
          else Inr (strm (if isInAcceptState F1 then COMPLETE else WAITING_FOR_INPUT) True
                      (ci @ [ch])
                      (updateCapturePosition (recordCharInCaptures (count_character F1) ch) (Suc i))))"
proof -
  from assms(2) have "feed (strm ss sm ci W) ch
      = feed_step (strm (if sm then ss else PROCESSING) True (ci @ [ch]) W) ch"
    by (auto simp: feed_eq feed_enter_strm)
  then show ?thesis by (simp only: feed_step_strm [OF assms(1)])
qed

lemma validate_loop_feed_chunk:
  assumes "ss \<noteq> ERROR" and "sm \<or> (isValid (start_state V) \<and> rest \<noteq> [])"
  shows "case validate_loop V i rest of
           Inl e \<Rightarrow> feed_chunk (strm ss sm ci (updateCapturePosition V i)) rest = Inl e
         | Inr (ok, V') \<Rightarrow>
             (\<exists>ss' ci'. feed_chunk (strm ss sm ci (updateCapturePosition V i)) rest
                 = Inr (strm ss' True ci'
                          (if ok then updateCapturePosition V' (i + length rest) else V'))
               \<and> (ss' \<noteq> ERROR) = ok)"
  using assms
proof (induction rest arbitrary: V i ss sm ci)
  case Nil
  then have sm by simp
  with Nil.prems(1) show ?case by auto
next
  case (Cons ch r)
  let ?W = "updateCapturePosition V i"
  have pos: "current_input_position ?W = i" by (simp add: updateCapturePosition_def)
  from Cons.prems(2) have start: "sm \<or> isValid (start_state ?W)"
    by (auto simp: updateCapturePosition_def)
  note fd = feed_strm [OF pos start, of ss ci ch]
  show ?case
  proof (cases "processCharImpl ?W ch i")
    case (Inl e)
    then show ?thesis by (simp add: fd)
  next
    case (Inr p)
    obtain ok F1 where p: "p = (ok, F1)" by (cases p)
    show ?thesis
    proof (cases ok)
      case False
      with Inr p have "feed_chunk (strm ss sm ci ?W) (ch # r) = Inr (strm ERROR True (ci @ [ch]) F1)"
        by (simp add: fd)
      moreover from False Inr p have "validate_loop V i (ch # r) = Inr (False, F1)" by simp
      ultimately show ?thesis by auto
    next
      case True
      let ?V2 = "recordCharInCaptures (count_character F1) ch"
      let ?ss2 = "if isInAcceptState F1 then COMPLETE else WAITING_FOR_INPUT"
      have ne: "?ss2 \<noteq> ERROR" by simp
      from True Inr p have L: "validate_loop V i (ch # r) = validate_loop ?V2 (Suc i) r" by simp
      from True Inr p have R: "feed_chunk (strm ss sm ci ?W) (ch # r)
          = feed_chunk (strm ?ss2 True (ci @ [ch]) (updateCapturePosition ?V2 (Suc i))) r"
        by (simp add: fd)
      have "case validate_loop ?V2 (Suc i) r of
           Inl e \<Rightarrow> feed_chunk (strm ?ss2 True (ci @ [ch]) (updateCapturePosition ?V2 (Suc i))) r = Inl e
         | Inr (ok, V') \<Rightarrow>
             (\<exists>ss' ci'. feed_chunk (strm ?ss2 True (ci @ [ch]) (updateCapturePosition ?V2 (Suc i))) r
                 = Inr (strm ss' True ci'
                          (if ok then updateCapturePosition V' (Suc i + length r) else V'))
               \<and> (ss' \<noteq> ERROR) = ok)"
        by (rule Cons.IH [OF ne]) simp
      then show ?thesis by (simp only: L R length_Cons add_Suc_shift add_Suc)
    qed
  qed
qed

lemma validate_init_reset:
  assumes "captures F = []" and "active_captures F = []"
  shows "reset F = strm READY False [] (updateCapturePosition (validate_init F x) 0)"
  using assms
  by (simp add: validate_init_def reset_def resetBacktrackingStats_def clearCaptures_def
      strm_def updateCapturePosition_def)

lemma outcome_simps [simp]:
  "outcome (strm ss sm ci F) = outcome F"
  "outcome (set_error F ty p ch) = outcome F"
  "outcome (F\<lparr>stream_state := s\<rparr>) = outcome F"
  "outcome (updateCapturePosition F p) = outcome F"
  by (simp_all add: outcome_def strm_def set_error_def updateCapturePosition_def)

lemma endOfStream_strm:
  "endOfStream (strm ss True ci W) =
     (case processEpsilonTransitions W (current_input_position W) of
        Inl e \<Rightarrow> Inl e
      | Inr G \<Rightarrow>
          if \<not> isInAcceptState G
          then Inr (strm ERROR True ci (set_error G NOT_IN_ACCEPT_STATE (current_input_position G) 0))
          else Inr (strm COMPLETE True ci G))"
proof -
  have p: "processEpsilonTransitions (strm ss True ci W) (current_input_position W)
      = map_sum id (strm ss True ci) (processEpsilonTransitions W (current_input_position W))"
    by (rule frame_processEpsilonTransitions [OF frame_strm])
  show ?thesis
  proof (cases "processEpsilonTransitions W (current_input_position W)")
    case (Inl e)
    then show ?thesis by (simp add: endOfStream_def p)
  next
    case (Inr G)
    then show ?thesis
      by (simp add: endOfStream_def p isInAcceptState_def isAcceptState_def,
          simp add: strm_def set_error_def)
  qed
qed

lemma validate_feed_then_end:
  assumes "x \<noteq> []" and "captures F = []" and "active_captures F = []"
  shows "observe outcome (validate F x) = observe outcome (feed_then_end (reset F) x)"
proof -
  let ?V0 = "validate_init F x"
  let ?W0 = "updateCapturePosition ?V0 0"
  note S0 = validate_init_reset [OF assms(2,3), of x]
  from assms(1) obtain ch r where x: "x = ch # r" by (cases x) auto
  show ?thesis
  proof (cases "isValid (start_state F)")
    case False
    have "feed (reset F) ch = Inr ((set_error (feed_enter (reset F) ch) NO_START_STATE
              (current_input_position (reset F)) ch)\<lparr>stream_state := ERROR\<rparr>)"
      using False by (simp add: feed_eq reset_def resetBacktrackingStats_def)
    then have "feed_then_end (reset F) x = Inr (False,
        (set_error (feed_enter (reset F) ch) NO_START_STATE
              (current_input_position (reset F)) ch)\<lparr>stream_state := ERROR\<rparr>)"
      by (simp add: feed_then_end_def x)
    moreover have "validate F x = Inr (False, set_error ?V0 NO_START_STATE 0 0)"
      using False by (simp add: validate_def Let_def)
    moreover have "outcome (feed_enter (reset F) ch) = outcome ?V0"
      by (simp add: S0 feed_enter_strm)
    ultimately show ?thesis by (simp add: observe_def)
  next
    case True
    have sim: "case validate_loop ?V0 0 x of
           Inl e \<Rightarrow> feed_chunk (strm READY False [] ?W0) x = Inl e
         | Inr (ok, V') \<Rightarrow>
             (\<exists>ss' ci'. feed_chunk (strm READY False [] ?W0) x
                 = Inr (strm ss' True ci'
                          (if ok then updateCapturePosition V' (0 + length x) else V'))
               \<and> (ss' \<noteq> ERROR) = ok)"
      by (rule validate_loop_feed_chunk) (use True assms(1) in simp_all)
    from True have V: "validate F x = (case validate_loop ?V0 0 x of
                Inl e \<Rightarrow> Inl e
              | Inr (ok, F1) \<Rightarrow>
                  if \<not> ok then Inr (False, F1) else validate_finish F1 (length x))"
      by (simp add: validate_def Let_def)
    show ?thesis
    proof (cases "validate_loop ?V0 0 x")
      case (Inl e)
      with sim show ?thesis by (simp add: V feed_then_end_def S0)
    next
      case (Inr p)
      obtain ok V' where p: "p = (ok, V')" by (cases p)
      from sim Inr p have "\<exists>ss' ci'. feed_chunk (strm READY False [] ?W0) x
               = Inr (strm ss' True ci' (if ok then updateCapturePosition V' (length x) else V'))
             \<and> (ss' \<noteq> ERROR) = ok"
        by (cases ok) simp_all
      then obtain ss' ci' where
        fc0: "feed_chunk (strm READY False [] ?W0) x
               = Inr (strm ss' True ci' (if ok then updateCapturePosition V' (length x) else V'))"
        and ss': "(ss' \<noteq> ERROR) = ok"
        by blast
      from fc0 have fc: "feed_chunk (reset F) x
               = Inr (strm ss' True ci' (if ok then updateCapturePosition V' (length x) else V'))"
        by (simp only: S0)
      show ?thesis
      proof (cases ok)
        case False
        with Inr p fc ss' show ?thesis by (simp add: V feed_then_end_def observe_def)
      next
        case ok: True
        let ?W = "updateCapturePosition V' (length x)"
        have posW: "current_input_position ?W = length x"
          by (simp add: updateCapturePosition_def)
        from ok fc ss' have R: "feed_then_end (reset F) x =
            (case endOfStream (strm ss' True ci' ?W) of
               Inl e \<Rightarrow> Inl e
             | Inr S' \<Rightarrow> Inr (stream_state S' = COMPLETE, S'))"
          by (simp add: feed_then_end_def)
        from ok Inr p have L: "validate F x = validate_finish V' (length x)"
          by (simp add: V)
        show ?thesis
        proof (cases "processEpsilonTransitions ?W (length x)")
          case (Inl e)
          then show ?thesis
            by (simp add: L R endOfStream_strm posW validate_finish_def)
        next
          case (Inr G)
          then show ?thesis
            by (simp add: L R endOfStream_strm posW validate_finish_def observe_def)
        qed
      qed
    qed
  qed
qed

subsection \<open>The claim on one-shot and streaming validation\<close>

text \<open>
  Claim C1, as stated: for every machine and every input, the empty one included,
  \<open>validate(x)\<close> and the run \<open>feed(x[0]) ... feed(x[n-1])\<close>, \<open>endOfStream()\<close> on a
  freshly reset machine give the same accept/reject outcome and the same closed captures.
  Three runs where they differ:
  \<^item> the empty input on \<open>M_loop\<close>: \<open>validate\<close> accepts, and \<open>endOfStream()\<close> with no
    \<open>feed\<close> before it reports \<open>ERROR\<close> (\<open>UNEXPECTED_END_OF_INPUT\<close>);
  \<^item> the input \<open>b\<close> on \<open>M_loop\<close>: \<open>validate\<close> rejects; \<open>feed\<close> reports \<open>ERROR\<close> and leaves
    the machine in its accepting state, and \<open>endOfStream()\<close> then reports \<open>COMPLETE\<close>;
  \<^item> the input \<open>a\<close> on \<open>M_traced_after\<close>, a machine that has run before: \<open>reset()\<close> keeps
    the closed capture of the earlier run, which \<open>validate\<close> clears, so the streaming run
    ends with two closed captures and \<open>validate\<close> with one.
\<close>

theorem validate_streaming_counterexample:
  "map_sum id fst (validate M_loop []) = Inr True \<and>
   map_sum id stream_state (stream_run (reset M_loop) []) = Inr ERROR \<and>
   map_sum id fst (validate M_loop [98]) = Inr False \<and>
   map_sum id stream_state (stream_run (reset M_loop) [98]) = Inr COMPLETE \<and>
   observe captures (validate M_traced_after [97])
     = Inr (True, [\<lparr>cg_name = ''c'', cg_start_position = 0, cg_end_position = 0,
                     cg_value = []\<rparr>]) \<and>
   map_sum id captures (stream_run (reset M_traced_after) [97])
     = Inr [\<lparr>cg_name = ''c'', cg_start_position = 0, cg_end_position = 0, cg_value = []\<rparr>,
            \<lparr>cg_name = ''c'', cg_start_position = 0, cg_end_position = 0, cg_value = []\<rparr>]"
proof -
  have "map_sum id fst (validate M_loop []) = Inr True"
    by (simp add: M_loop_def eval_defs)
  moreover have "map_sum id stream_state (stream_run (reset M_loop) []) = Inr ERROR"
    by (simp add: M_loop_def eval_defs stream_run_def)
  moreover have "map_sum id fst (validate M_loop [98]) = Inr False"
    by (simp add: M_loop_def eval_defs)
  moreover have "map_sum id stream_state (stream_run (reset M_loop) [98]) = Inr COMPLETE"
    by (simp add: M_loop_def eval_defs stream_run_def)
  moreover have "observe captures (validate M_traced_after [97])
     = Inr (True, [\<lparr>cg_name = ''c'', cg_start_position = 0, cg_end_position = 0,
                     cg_value = []\<rparr>])"
    by (simp add: M_traced_after_def M_traced_def eval_defs observe_def)
  moreover have "map_sum id captures (stream_run (reset M_traced_after) [97])
     = Inr [\<lparr>cg_name = ''c'', cg_start_position = 0, cg_end_position = 0, cg_value = []\<rparr>,
            \<lparr>cg_name = ''c'', cg_start_position = 0, cg_end_position = 0, cg_value = []\<rparr>]"
    by (simp add: M_traced_after_def M_traced_def eval_defs stream_run_def)
  ultimately show ?thesis by blast
qed

text \<open>
  Claim C1, amended. For a nonempty input and a machine whose capture lists are empty,
  \<open>validate(x)\<close> agrees with the streaming run on the reset machine in which the input
  is rejected as soon as a \<open>feed\<close> reports \<open>ERROR\<close> (\<open>feed_then_end\<close>): both throw, or
  both return, with the same accept/reject outcome, the same closed captures, the same
  active captures and the same current state. When no \<open>feed\<close> reports \<open>ERROR\<close>, that run
  is the run \<open>feed(x[0]) ... feed(x[n-1])\<close>, \<open>endOfStream()\<close> of the claim, accepted when
  \<open>endOfStream()\<close> reports \<open>COMPLETE\<close>.
\<close>

theorem validate_agrees_with_streaming:
  assumes "x \<noteq> []" and "captures F = []" and "active_captures F = []"
  shows "observe outcome (validate F x) = observe outcome (feed_then_end (reset F) x) \<and>
     (\<forall>S. feed_chunk (reset F) x = Inr S \<and> stream_state S \<noteq> ERROR \<longrightarrow>
        feed_then_end (reset F) x
          = (case stream_run (reset F) x of
               Inl e \<Rightarrow> Inl e
             | Inr S' \<Rightarrow> Inr (stream_state S' = COMPLETE, S')))"
proof -
  have "feed_then_end (reset F) x
          = (case stream_run (reset F) x of
               Inl e \<Rightarrow> Inl e
             | Inr S' \<Rightarrow> Inr (stream_state S' = COMPLETE, S'))"
    if "feed_chunk (reset F) x = Inr S \<and> stream_state S \<noteq> ERROR" for S
  proof -
    from that have "feed_each (reset F) x = Inr S" by (simp add: feed_chunk_feed_each)
    with that show ?thesis by (simp add: feed_then_end_def stream_run_def)
  qed
  with validate_feed_then_end [OF assms] show ?thesis by blast
qed

theorem validate_agrees_with_streaming_witness:
  "[97 :: byte] \<noteq> [] \<and> captures M_traced = [] \<and> active_captures M_traced = [] \<and>
   observe outcome (validate M_traced [97]) = observe outcome (feed_then_end (reset M_traced) [97]) \<and>
   observe outcome (validate M_traced [97])
     = Inr (True, [\<lparr>cg_name = ''c'', cg_start_position = 0, cg_end_position = 0,
                     cg_value = []\<rparr>], [], 2) \<and>
   (\<exists>S. feed_chunk (reset M_traced) [97] = Inr S \<and> stream_state S \<noteq> ERROR \<and>
        feed_then_end (reset M_traced) [97]
          = (case stream_run (reset M_traced) [97] of
               Inl e \<Rightarrow> Inl e
             | Inr S' \<Rightarrow> Inr (stream_state S' = COMPLETE, S')))"
proof -
  have a: "[97 :: byte] \<noteq> []" "captures M_traced = []" "active_captures M_traced = []"
    by (simp_all add: M_traced_def eval_defs)
  have b: "observe outcome (validate M_traced [97])
     = Inr (True, [\<lparr>cg_name = ''c'', cg_start_position = 0, cg_end_position = 0,
                     cg_value = []\<rparr>], [], 2)"
    by (simp add: M_traced_def eval_defs observe_def outcome_def)
  have c: "\<exists>S. feed_chunk (reset M_traced) [97] = Inr S \<and> stream_state S \<noteq> ERROR"
    by (simp add: M_traced_def eval_defs)
  from a b c validate_agrees_with_streaming [of "[97]" M_traced] show ?thesis by blast
qed

end
